theory Spec2Isabelle
  imports Main "HOL-Library.Product_Lexorder" "HOL-Library.Multiset"
begin

section \<open>The linear IR: values, instructions, modules\<close>

text \<open>
  The optimizer of \<^verbatim>\<open>lib/Optimizer/IROptimizer.cpp\<close> works on a module: one
  straight-line stream of instructions plus the weight variables. Everything an operand
  can point to is a \<^verbatim>\<open>Value\<close>. A \<^verbatim>\<open>Value *\<close> is modelled by the record
  \<open>Value\<close>: the address of the object together with the immutable header of the
  object it points to (its kind tag, its type and its name), so that
  \<^verbatim>\<open>isa<>\<close>, \<^verbatim>\<open>dyn_cast<>\<close>, \<^verbatim>\<open>getType()\<close> and \<^verbatim>\<open>getName()\<close>
  are read off the pointer. The mutable parts of an object (the operand list of an
  instruction, the mutability of a weight) live in the module and are looked up there.
  Two pointers are equal when the records are equal.
\<close>

datatype Kind =
    WeightVarKind
  | AllocActivationInstKind
  | DeallocActivationInstKind
  | TensorViewInstKind
  | CopyInstKind
  | DebugPrintInstKind
  | SplatInstKind
  | ReshapeInstKind
  | TransposeInstKind
  | ElementMaxInstKind
  | PoolMaxWithXYInstKind
  | PoolMaxInstKind
  | SoftMaxWithEInstKind
  | SoftMaxInstKind
  | OtherInstKind

datatype OperandKind = In | InOut | Out

datatype MutabilityKind = Constant | Mutable

datatype CompilationMode = Train | Infer

type_synonym TypeRef = nat

record Value =
  getKind :: Kind
  addr :: nat
  getType :: TypeRef
  getName :: string

type_synonym Operand = "Value \<times> OperandKind"

text \<open>
  An instruction is a value (\<open>asValue\<close> is the up-cast of the instruction pointer) with
  an ordered operand list and the kind-specific payload \<open>attrs\<close> (kernel, stride, pad,
  splat constant, ...), which the optimizer only copies.
\<close>

record Instruction =
  asValue :: Value
  getOperands :: "Operand list"
  attrs :: "nat list"

text \<open>
  A weight variable is always of kind \<open>WeightVarKind\<close>; the pointer to it is
  \<open>weightValue\<close>.
\<close>

record WeightVar =
  waddr :: nat
  wtype :: TypeRef
  wname :: string
  getMutability :: MutabilityKind

definition weightValue :: "WeightVar \<Rightarrow> Value" where
  "weightValue W = \<lparr>getKind = WeightVarKind, addr = waddr W, getType = wtype W, getName = wname W\<rparr>"

record Module =
  getInstrs :: "Instruction list"
  getWeights :: "WeightVar list"

text \<open>
  The ways the C++ can stop without a result: a failed \<^verbatim>\<open>assert\<close> (the model is
  the build with assertions enabled), undefined behaviour that the model refuses to give a
  meaning to, and the exhaustion of the fuel of a loop whose iterator is moved by the body.
\<close>

datatype error = AssertionFailed | UndefinedBehavior | FuelExhausted

definition isa :: "Kind \<Rightarrow> Instruction \<Rightarrow> bool" where
  "isa k I = (getKind (asValue I) = k)"

definition getNumOperands :: "Instruction \<Rightarrow> nat" where
  "getNumOperands I = length (getOperands I)"

text \<open>
  The use list of a value: one entry \<open>(user, operand)\<close> for every operand slot in the
  stream that points to the value (invariant I5 of the IR: the use lists mirror the
  operands of the stream). The order of the list is the stream order; every reader of the
  list below is independent of that order.
\<close>

definition usesOfInstr :: "Value \<Rightarrow> Instruction \<Rightarrow> (Instruction \<times> Operand) list" where
  "usesOfInstr v I = map (\<lambda>op. (I, op)) (filter (\<lambda>op. fst op = v) (getOperands I))"

definition ValueUses :: "Module \<Rightarrow> Value \<Rightarrow> (Instruction \<times> Operand) list" where
  "ValueUses M v = concat (map (usesOfInstr v) (getInstrs M))"

definition getNumUsers :: "Module \<Rightarrow> Value \<Rightarrow> nat" where
  "getNumUsers M v = length (ValueUses M v)"

text \<open>
  \<^verbatim>\<open>Module::eraseInstruction\<close> unlinks the instruction (found by its address) and
  destroys it; its operand slots disappear from the use lists with it.
\<close>

definition eraseInstruction :: "Module \<Rightarrow> Instruction \<Rightarrow> Module" where
  "eraseInstruction M I =
     M\<lparr>getInstrs := filter (\<lambda>J. asValue J \<noteq> asValue I) (getInstrs M)\<rparr>"

subsection \<open>Origin resolution\<close>

text \<open>
  Modelled from the spec: \<^verbatim>\<open>getOrigin\<close> and \<^verbatim>\<open>getAllocationOrigin\<close> are declared
  in \<^verbatim>\<open>glow/IR/IRUtils.h\<close>, which is not among the sources. Section 4.1: the origin
  of a TensorView is the origin of its source, every other value is its own origin; the
  allocation origin is the origin when that is an AllocActivation, and none otherwise.
  The source of a view is operand 0 of the TensorView instruction, looked up in the
  stream. The walk along the chain of views is bounded by the length of the stream (a
  chain of distinct views is never longer).
\<close>

definition lookupInstr :: "Module \<Rightarrow> Value \<Rightarrow> Instruction option" where
  "lookupInstr M v = find (\<lambda>I. asValue I = v) (getInstrs M)"

definition viewSource :: "Module \<Rightarrow> Value \<Rightarrow> Value option" where
  "viewSource M v =
     (if getKind v = TensorViewInstKind
      then (case lookupInstr M v of
              None \<Rightarrow> None
            | Some I \<Rightarrow> (case getOperands I of [] \<Rightarrow> None | op # _ \<Rightarrow> Some (fst op)))
      else None)"

fun originWalk :: "nat \<Rightarrow> Module \<Rightarrow> Value \<Rightarrow> Value" where
  "originWalk 0 M v = v"
| "originWalk (Suc n) M v =
     (case viewSource M v of None \<Rightarrow> v | Some s \<Rightarrow> originWalk n M s)"

definition getOrigin :: "Module \<Rightarrow> Value \<Rightarrow> Value" where
  "getOrigin M v = originWalk (length (getInstrs M)) M v"

definition getAllocationOrigin :: "Module \<Rightarrow> Value \<Rightarrow> Value option" where
  "getAllocationOrigin M v =
     (let a = getOrigin M v
      in if getKind a = AllocActivationInstKind then Some a else None)"

section \<open>Buffer sharing\<close>

text \<open>
  \<^verbatim>\<open>replaceAllNonDeallocUsersWith(val, with)\<close>: every operand slot of a
  non-dealloc instruction that points to \<open>val\<close> is set to \<open>with\<close>.
\<close>

definition replaceOperands :: "Value \<Rightarrow> Value \<Rightarrow> Instruction \<Rightarrow> Instruction" where
  "replaceOperands val w I =
     (if isa DeallocActivationInstKind I then I
      else I\<lparr>getOperands := map (\<lambda>op. if fst op = val then (w, snd op) else op) (getOperands I)\<rparr>)"

definition replaceAllNonDeallocUsersWith :: "Module \<Rightarrow> Value \<Rightarrow> Value \<Rightarrow> error + Module" where
  "replaceAllNonDeallocUsersWith M val w =
     (if val = w then Inl AssertionFailed
      else Inr (M\<lparr>getInstrs := map (replaceOperands val w) (getInstrs M)\<rparr>))"

text \<open>
  \<^verbatim>\<open>Instruction::isInplaceOp(I, first, second)\<close> is a static table of the IR that
  is not among the sources; it is a parameter \<open>inplace\<close> of the model.
\<close>

type_synonym InplaceTable = "Instruction \<Rightarrow> nat \<Rightarrow> nat \<Rightarrow> bool"

definition operandPairs :: "nat \<Rightarrow> (nat \<times> nat) list" where
  "operandPairs e = concat (map (\<lambda>first. map (\<lambda>second. (first, second)) [Suc first ..< e]) [0 ..< e])"

definition shareDest :: "Module \<Rightarrow> Instruction \<Rightarrow> nat \<Rightarrow> Value" where
  "shareDest M I i =
     (let v = fst (getOperands I ! i)
      in case getAllocationOrigin M v of None \<Rightarrow> v | Some a \<Rightarrow> a)"

definition canShare :: "InplaceTable \<Rightarrow> Value set \<Rightarrow> Module \<Rightarrow> Instruction \<Rightarrow> nat \<times> nat \<Rightarrow> bool" where
  "canShare inplace liveBuffers M I p =
     (let dest = shareDest M I (fst p); src = shareDest M I (snd p)
      in \<not> (getType dest \<noteq> getType src \<or> dest = src)
         \<and> inplace I (fst p) (snd p)
         \<and> dest \<notin> liveBuffers \<and> src \<notin> liveBuffers)"

definition tryToShareBuffersForInstr ::
  "InplaceTable \<Rightarrow> Value set \<Rightarrow> Module \<Rightarrow> Instruction \<Rightarrow> error + Module" where
  "tryToShareBuffersForInstr inplace liveBuffers M I =
     (case find (canShare inplace liveBuffers M I) (operandPairs (getNumOperands I)) of
        None \<Rightarrow> Inr M
      | Some p \<Rightarrow> replaceAllNonDeallocUsersWith M (shareDest M I (fst p)) (shareDest M I (snd p)))"

text \<open>
  The first operand loop of \<^verbatim>\<open>shareBuffers\<close>, one operand at a time. The state is
  the pair of \<^verbatim>\<open>liveBuffers\<close> and \<^verbatim>\<open>outBuffers\<close>.
\<close>

definition killOperand :: "Module \<Rightarrow> Operand \<Rightarrow> Value set \<times> Value set \<Rightarrow> Value set \<times> Value set" where
  "killOperand M opd s =
     (case getAllocationOrigin M (fst opd) of
        None \<Rightarrow> s
      | Some ai \<Rightarrow>
          (if snd opd = Out
           then (if ai \<in> fst s then (fst s - {ai}, insert ai (snd s)) else s)
           else (let live1 = (if snd opd = InOut then insert ai (fst s) else fst s);
                     live2 = (if snd opd = In \<and> ai \<in> snd s then insert ai live1 else live1)
                 in (live2, snd s))))"

definition killOperands :: "Module \<Rightarrow> Operand list \<Rightarrow> Value set \<times> Value set \<Rightarrow> Value set \<times> Value set" where
  "killOperands M ops s = foldl (\<lambda>s opd. killOperand M opd s) s ops"

text \<open>The last operand loop: every operand that is not written only is made live.\<close>

definition reviveOperand :: "Module \<Rightarrow> Operand \<Rightarrow> Value set \<Rightarrow> Value set" where
  "reviveOperand M opd live =
     (case getAllocationOrigin M (fst opd) of
        None \<Rightarrow> live
      | Some ai \<Rightarrow> (if snd opd \<noteq> Out then insert ai live else live))"

definition reviveOperands :: "Module \<Rightarrow> Operand list \<Rightarrow> Value set \<Rightarrow> Value set" where
  "reviveOperands M ops live = foldl (\<lambda>l opd. reviveOperand M opd l) live ops"

text \<open>
  One iteration of the reverse walk, at the instruction at position \<open>pos\<close>. The rewrite
  of \<^verbatim>\<open>tryToShareBuffersForInstr\<close> may change the operands of the instruction
  itself, so the last loop reads them from the rewritten module.
\<close>

definition shareStep ::
  "InplaceTable \<Rightarrow> nat \<Rightarrow> Module \<times> Value set \<Rightarrow> error + (Module \<times> Value set)" where
  "shareStep inplace pos s =
     (let M = fst s;
          I = getInstrs M ! pos;
          live1 = fst (killOperands M (getOperands I) (snd s, {}))
      in case tryToShareBuffersForInstr inplace live1 M I of
           Inl e \<Rightarrow> Inl e
         | Inr M' \<Rightarrow> Inr (M', reviveOperands M' (getOperands (getInstrs M' ! pos)) live1))"

text \<open>
  The state of the walk after its first \<open>k\<close> iterations, that is after the last \<open>k\<close>
  instructions of the stream. The walk starts with every weight in the live set.
\<close>

fun shareWalk :: "InplaceTable \<Rightarrow> Module \<Rightarrow> nat \<Rightarrow> error + (Module \<times> Value set)" where
  "shareWalk inplace M 0 = Inr (M, set (map weightValue (getWeights M)))"
| "shareWalk inplace M (Suc k) =
     (case shareWalk inplace M k of
        Inl e \<Rightarrow> Inl e
      | Inr s \<Rightarrow> (if k < length (getInstrs (fst s))
                  then shareStep inplace (length (getInstrs (fst s)) - Suc k) s
                  else Inr s))"

definition shareBuffers :: "InplaceTable \<Rightarrow> Module \<Rightarrow> error + Module" where
  "shareBuffers inplace M =
     (case shareWalk inplace M (length (getInstrs M)) of
        Inl e \<Rightarrow> Inl e
      | Inr s \<Rightarrow> Inr (fst s))"

section \<open>Hoisting deallocations and sinking allocations\<close>

text \<open>
  An \<^verbatim>\<open>InstrIterator\<close> is a position of the \<^verbatim>\<open>std::list\<close>: the node of one
  instruction, or \<^verbatim>\<open>end()\<close>. It is modelled as \<open>Some\<close> of the instruction pointer,
  or \<open>None\<close> for \<^verbatim>\<open>end()\<close>. \<open>nextOf\<close> is \<^verbatim>\<open>std::next\<close>.
\<close>

type_synonym InstrIterator = "Value option"

definition beginOf :: "Instruction list \<Rightarrow> InstrIterator" where
  "beginOf l = (case l of [] \<Rightarrow> None | I # _ \<Rightarrow> Some (asValue I))"

definition nextOf :: "Instruction list \<Rightarrow> Value \<Rightarrow> InstrIterator" where
  "nextOf l v = beginOf (drop 1 (dropWhile (\<lambda>J. asValue J \<noteq> v) l))"

text \<open>
  \<^verbatim>\<open>Module::insertInstruction(where, I)\<close> links \<open>I\<close> in front of the position
  \<open>where\<close>; \<^verbatim>\<open>Module::moveInstruction(where, I)\<close> unlinks \<open>I\<close> first.
\<close>

definition insertBefore :: "InstrIterator \<Rightarrow> Instruction \<Rightarrow> Instruction list \<Rightarrow> Instruction list" where
  "insertBefore wh I l =
     (case wh of
        None \<Rightarrow> l @ [I]
      | Some w \<Rightarrow> takeWhile (\<lambda>J. asValue J \<noteq> w) l @ I # dropWhile (\<lambda>J. asValue J \<noteq> w) l)"

definition insertInstruction :: "Module \<Rightarrow> InstrIterator \<Rightarrow> Instruction \<Rightarrow> Module" where
  "insertInstruction M wh I = M\<lparr>getInstrs := insertBefore wh I (getInstrs M)\<rparr>"

definition moveInstruction :: "Module \<Rightarrow> InstrIterator \<Rightarrow> Instruction \<Rightarrow> Module" where
  "moveInstruction M wh I = insertInstruction (eraseInstruction M I) wh I"

text \<open>
  The first loop of \<^verbatim>\<open>hoistDealloc\<close>: \<open>lastUser\<close> maps an allocation to the
  position of the last instruction, other than a dealloc, that is the allocation itself
  or has an operand whose allocation origin it is.
\<close>

definition recordLastUser :: "Module \<Rightarrow> (Value \<rightharpoonup> Value) \<Rightarrow> Instruction \<Rightarrow> (Value \<rightharpoonup> Value)" where
  "recordLastUser M lastUser I =
     (if isa DeallocActivationInstKind I then lastUser
      else if isa AllocActivationInstKind I then lastUser(asValue I \<mapsto> asValue I)
      else foldl (\<lambda>lu opd. case getAllocationOrigin M (fst opd) of
                               None \<Rightarrow> lu
                             | Some alloc \<Rightarrow> lu(alloc \<mapsto> asValue I))
                 lastUser (getOperands I))"

definition lastUsers :: "Module \<Rightarrow> (Value \<rightharpoonup> Value)" where
  "lastUsers M = foldl (recordLastUser M) Map.empty (getInstrs M)"

text \<open>
  The second loop, at the position \<open>it\<close>. The body captures the next position before it
  moves the current dealloc, so a dealloc that is moved towards the end of the stream is
  met again; the recursion is on fuel. \<^verbatim>\<open>lastUser[alloc]\<close> of an allocation that
  was never recorded is a singular iterator, whose increment is undefined behaviour.
\<close>

fun hoistLoop :: "nat \<Rightarrow> (Value \<rightharpoonup> Value) \<Rightarrow> Module \<Rightarrow> InstrIterator \<Rightarrow> error + Module" where
  "hoistLoop fuel lastUser M None = Inr M"
| "hoistLoop 0 lastUser M (Some cur) = Inl FuelExhausted"
| "hoistLoop (Suc fuel) lastUser M (Some cur) =
     (case lookupInstr M cur of
        None \<Rightarrow> Inl UndefinedBehavior
      | Some da \<Rightarrow>
          (let it = nextOf (getInstrs M) cur
           in if \<not> isa DeallocActivationInstKind da then hoistLoop fuel lastUser M it
              else (case getOperands da of
                      [] \<Rightarrow> Inl AssertionFailed
                    | opd # _ \<Rightarrow>
                        (let alloc = getOrigin M (fst opd)
                         in if getKind alloc \<noteq> AllocActivationInstKind then Inl AssertionFailed
                            else (case lastUser alloc of
                                    None \<Rightarrow> Inl UndefinedBehavior
                                  | Some wh \<Rightarrow>
                                      (if nextOf (getInstrs M) wh = Some cur
                                       then hoistLoop fuel lastUser M it
                                       else hoistLoop fuel lastUser
                                              (moveInstruction M (nextOf (getInstrs M) wh) da) it))))))"

definition hoistDealloc :: "Module \<Rightarrow> error + Module" where
  "hoistDealloc M =
     hoistLoop (2 * length (getInstrs M)) (lastUsers M) M (beginOf (getInstrs M))"

text \<open>
  \<^verbatim>\<open>sinkAllocas\<close>: all allocations are unlinked and collected in \<open>allocs\<close>; then
  every operand that is itself one of the collected allocations puts it back in front of
  the instruction that has the operand. The function returns as soon as the last
  allocation is placed; an allocation that is left fails the final assertion.
\<close>

fun sinkOperands :: "Instruction list \<Rightarrow> Operand list \<Rightarrow> Instruction list \<times> Instruction list" where
  "sinkOperands allocs [] = ([], allocs)"
| "sinkOperands allocs (opd # ops) =
     (if getKind (fst opd) \<noteq> AllocActivationInstKind then sinkOperands allocs ops
      else (case find (\<lambda>A. asValue A = fst opd) allocs of
              None \<Rightarrow> sinkOperands allocs ops
            | Some aa \<Rightarrow>
                (let allocs' = filter (\<lambda>A. asValue A \<noteq> fst opd) allocs
                 in if allocs' = [] then ([aa], [])
                    else (let r = sinkOperands allocs' ops in (aa # fst r, snd r)))))"

fun sinkInstrs :: "Instruction list \<Rightarrow> Instruction list \<Rightarrow> Instruction list \<times> Instruction list" where
  "sinkInstrs allocs [] = ([], allocs)"
| "sinkInstrs allocs (I # rest) =
     (let r = sinkOperands allocs (getOperands I)
      in if fst r \<noteq> [] \<and> snd r = [] then (fst r @ I # rest, [])
         else (let r2 = sinkInstrs (snd r) rest in (fst r @ I # fst r2, snd r2)))"

definition sinkAllocas :: "Module \<Rightarrow> error + Module" where
  "sinkAllocas M =
     (let allocs = filter (isa AllocActivationInstKind) (getInstrs M);
          others = filter (\<lambda>I. \<not> isa AllocActivationInstKind I) (getInstrs M);
          r = sinkInstrs allocs others
      in if snd r \<noteq> [] then Inl AssertionFailed else Inr (M\<lparr>getInstrs := fst r\<rparr>))"

section \<open>Dead allocations\<close>

text \<open>
  Modelled from the spec: \<^verbatim>\<open>DeallocActivationInst::getAlloc\<close> is declared in
  \<^verbatim>\<open>glow/IR/Instrs.h\<close>, which is not among the sources. Section 4.4 calls it the
  corresponding alloc of the dealloc: the value of its only operand. Reading operand 0 of
  an instruction without operands fails an assertion.
\<close>

definition getAlloc :: "Instruction \<Rightarrow> Value option" where
  "getAlloc DA = (case getOperands DA of [] \<Rightarrow> None | opd # _ \<Rightarrow> Some (fst opd))"

definition isDeadTensorView :: "Module \<Rightarrow> Instruction \<Rightarrow> bool" where
  "isDeadTensorView M I = (isa TensorViewInstKind I \<and> getNumUsers M (asValue I) = 0)"

definition isDeadDealloc :: "Module \<Rightarrow> Instruction \<Rightarrow> bool" where
  "isDeadDealloc M I =
     (isa DeallocActivationInstKind I \<and>
      (case getAlloc I of None \<Rightarrow> False | Some a \<Rightarrow> getNumUsers M a < 2))"

definition isDeadAlloc :: "Module \<Rightarrow> Instruction \<Rightarrow> bool" where
  "isDeadAlloc M I = (isa AllocActivationInstKind I \<and> getNumUsers M (asValue I) < 2)"

text \<open>
  Each of the three passes first copies the instructions that satisfy its predicate into
  \<^verbatim>\<open>ErasedInstructions\<close> and then erases them one by one.
\<close>

definition erasePass :: "(Module \<Rightarrow> Instruction \<Rightarrow> bool) \<Rightarrow> Module \<Rightarrow> Module" where
  "erasePass dead M = foldl eraseInstruction M (filter (dead M) (getInstrs M))"

definition deleteDeadAllocs :: "Module \<Rightarrow> error + Module" where
  "deleteDeadAllocs M =
     (let M1 = erasePass isDeadTensorView M
      in if \<exists>I \<in> set (getInstrs M1). isa DeallocActivationInstKind I \<and> getAlloc I = None
         then Inl AssertionFailed
         else Inr (erasePass isDeadAlloc (erasePass isDeadDealloc M1)))"

section \<open>Writers and weight mutability\<close>

text \<open>
  \<^verbatim>\<open>getSingleWriter(V)\<close>: the user of the only use of \<open>V\<close> that is neither in a
  dealloc nor a read; none when there is no such use or more than one.
\<close>

definition isWriteUse :: "Instruction \<times> Operand \<Rightarrow> bool" where
  "isWriteUse U = (\<not> isa DeallocActivationInstKind (fst U) \<and> snd (snd U) \<noteq> In)"

definition getSingleWriter :: "Module \<Rightarrow> Value \<Rightarrow> Instruction option" where
  "getSingleWriter M V =
     (case filter isWriteUse (ValueUses M V) of
        [U] \<Rightarrow> Some (fst U)
      | _ \<Rightarrow> None)"

definition isReadOnly :: "Module \<Rightarrow> WeightVar \<Rightarrow> bool" where
  "isReadOnly M W = list_all (\<lambda>U. snd (snd U) = In) (ValueUses M (weightValue W))"

definition makeWeightsConst :: "Module \<Rightarrow> Module" where
  "makeWeightsConst M =
     M\<lparr>getWeights :=
         map (\<lambda>W. W\<lparr>getMutability := (if isReadOnly M W then Constant else Mutable)\<rparr>)
             (getWeights M)\<rparr>"

text \<open>
  The mutability of the weight a pointer points to is looked up in the weights of the
  module; a weight the module does not hold has never been made constant.
\<close>

definition mutabilityOf :: "Module \<Rightarrow> Value \<Rightarrow> MutabilityKind" where
  "mutabilityOf M v =
     (case find (\<lambda>W. weightValue W = v) (getWeights M) of
        None \<Rightarrow> Mutable
      | Some W \<Rightarrow> getMutability W)"

section \<open>Live intervals\<close>

text \<open>
  An interval is the pair of its first and last instruction number. The liveness map
  gives every value its list of intervals, oldest first; a value without an entry has the
  empty list (an entry of the C++ map is never empty while the map is computed). The
  counter \<^verbatim>\<open>unsigned instIdx\<close> is a natural number: streams are shorter than
  \<open>2^32\<close> instructions.
\<close>

type_synonym Interval = "nat \<times> nat"
type_synonym Intervals = "Interval list"
type_synonym LiveIntervalsMap = "Value \<Rightarrow> Intervals"

text \<open>
  \<^verbatim>\<open>std::sort\<close> on the operands compares the pairs of pointer and kind: by address
  first, then by the operand kind, in the order of the enumeration
  \<^verbatim>\<open>In, InOut, Out\<close>. Operands that compare equal are equal, so that the sorted
  sequence does not depend on the sorting algorithm.
\<close>

fun kindRank :: "OperandKind \<Rightarrow> nat" where
  "kindRank In = 0"
| "kindRank InOut = 1"
| "kindRank Out = 2"

definition operandKey :: "Operand \<Rightarrow> nat \<times> nat" where
  "operandKey opd = (addr (fst opd), kindRank (snd opd))"

definition sortOperands :: "Operand list \<Rightarrow> Operand list" where
  "sortOperands ops = sort_key operandKey ops"

text \<open>
  The memory location of an operand: the operand itself when it is an allocation or a
  weight that is not constant; no other operand is tracked (a view is not resolved).
\<close>

definition memoryLocation :: "Module \<Rightarrow> Value \<Rightarrow> Value option" where
  "memoryLocation M v =
     (if getKind v = AllocActivationInstKind then Some v
      else if getKind v = WeightVarKind
           then (if mutabilityOf M v = Constant then None else Some v)
           else None)"

definition extendLast :: "Intervals \<Rightarrow> nat \<Rightarrow> Intervals" where
  "extendLast ivs instIdx = butlast ivs @ [(fst (last ivs), instIdx)]"

definition liveOperand ::
  "Module \<Rightarrow> Instruction \<Rightarrow> nat \<Rightarrow> LiveIntervalsMap \<Rightarrow> Operand \<Rightarrow> error + LiveIntervalsMap" where
  "liveOperand M I instIdx liveness opd =
     (case memoryLocation M (fst opd) of
        None \<Rightarrow> Inr liveness
      | Some loc \<Rightarrow>
          (if liveness loc = []
           then (if isa TensorViewInstKind I \<or> getKind (fst opd) = WeightVarKind
                    \<or> snd opd = Out \<or> snd opd = InOut
                 then Inr (liveness(loc := [(instIdx, instIdx)]))
                 else Inl AssertionFailed)
           else (let ivs = liveness loc;
                     ivs1 = (if snd opd \<noteq> Out \<or> snd (last ivs) \<noteq> fst (last ivs)
                             then extendLast ivs instIdx else ivs)
                 in if snd opd = In \<or> snd opd = InOut
                    then Inr (liveness(loc := ivs1))
                    else Inr (liveness(loc := ivs1 @ [(instIdx, instIdx)])))))"

fun liveOperands ::
  "Module \<Rightarrow> Instruction \<Rightarrow> nat \<Rightarrow> LiveIntervalsMap \<Rightarrow> Operand list \<Rightarrow> error + LiveIntervalsMap" where
  "liveOperands M I instIdx liveness [] = Inr liveness"
| "liveOperands M I instIdx liveness (opd # ops) =
     (case liveOperand M I instIdx liveness opd of
        Inl e \<Rightarrow> Inl e
      | Inr liveness' \<Rightarrow> liveOperands M I instIdx liveness' ops)"

text \<open>
  The walk over the stream. The \<^verbatim>\<open>continue\<close> of a dealloc runs the increment of
  the \<^verbatim>\<open>for\<close> statement like every other iteration does.
\<close>

fun liveWalk ::
  "Module \<Rightarrow> Instruction list \<Rightarrow> nat \<Rightarrow> LiveIntervalsMap \<Rightarrow> error + (LiveIntervalsMap \<times> nat)" where
  "liveWalk M [] instIdx liveness = Inr (liveness, instIdx)"
| "liveWalk M (I # rest) instIdx liveness =
     (if isa DeallocActivationInstKind I then liveWalk M rest (Suc instIdx) liveness
      else (case liveOperands M I instIdx liveness (sortOperands (getOperands I)) of
              Inl e \<Rightarrow> Inl e
            | Inr liveness' \<Rightarrow> liveWalk M rest (Suc instIdx) liveness'))"

text \<open>After the walk the last interval of every weight is extended to the end.\<close>

definition extendWeights :: "LiveIntervalsMap \<Rightarrow> nat \<Rightarrow> LiveIntervalsMap" where
  "extendWeights liveness instIdx =
     (\<lambda>loc. if getKind loc = WeightVarKind \<and> liveness loc \<noteq> []
            then extendLast (liveness loc) instIdx else liveness loc)"

definition calculateLiveIntervals :: "Module \<Rightarrow> error + LiveIntervalsMap" where
  "calculateLiveIntervals M =
     (case liveWalk M (getInstrs M) 0 (\<lambda>v. []) of
        Inl e \<Rightarrow> Inl e
      | Inr r \<Rightarrow> Inr (extendWeights (fst r) (snd r)))"

definition getEnclosingInterval :: "Intervals \<Rightarrow> nat \<Rightarrow> Interval option" where
  "getEnclosingInterval LiveIntervals instIdx =
     find (\<lambda>I. fst I \<le> instIdx \<and> instIdx \<le> snd I) LiveIntervals"

definition isEnclosedInside :: "Interval \<Rightarrow> Interval \<Rightarrow> bool" where
  "isEnclosedInside LHS RHS = (fst LHS < fst RHS \<and> snd RHS \<le> snd LHS)"

section \<open>Copy propagation\<close>

text \<open>
  \<^verbatim>\<open>replaceAllUsesWith(val, with, I, M, ChangedInstrs)\<close>: in the instructions
  numbered from \<open>fst I\<close> to \<open>snd I\<close> (deallocs are numbered and visited like the others)
  every operand that points to \<open>val\<close> is set to \<open>with\<close>, except the operands of the
  instruction \<open>fst I\<close> that are not written only. \<open>ChangedInstrs\<close> gets one entry for
  every operand that is set.
\<close>

definition isReplaced :: "Value \<Rightarrow> Interval \<Rightarrow> nat \<Rightarrow> Operand \<Rightarrow> bool" where
  "isReplaced val I instIdx opd =
     (\<not> instIdx < fst I \<and> instIdx \<le> snd I \<and>
      \<not> fst opd \<noteq> val \<and> \<not> (instIdx = fst I \<and> snd opd \<noteq> Out))"

definition replaceUses :: "Value \<Rightarrow> Value \<Rightarrow> Interval \<Rightarrow> nat \<times> Instruction \<Rightarrow> Instruction" where
  "replaceUses val w I p =
     (snd p)\<lparr>getOperands :=
        map (\<lambda>opd. if isReplaced val I (fst p) opd then (w, snd opd) else opd)
            (getOperands (snd p))\<rparr>"

definition changedBy :: "Value \<Rightarrow> Interval \<Rightarrow> nat \<times> Instruction \<Rightarrow> Value list" where
  "changedBy val I p =
     map (\<lambda>opd. asValue (snd p)) (filter (isReplaced val I (fst p)) (getOperands (snd p)))"

definition replaceAllUsesWith :: "Value \<Rightarrow> Value \<Rightarrow> Interval \<Rightarrow> Module \<Rightarrow> Module \<times> Value list" where
  "replaceAllUsesWith val w I M =
     (let numbered = zip [0 ..< length (getInstrs M)] (getInstrs M)
      in (M\<lparr>getInstrs := map (replaceUses val w I) numbered\<rparr>,
          concat (map (changedBy val I) numbered)))"

text \<open>
  \<^verbatim>\<open>eraseInstructions\<close> erases every instruction of the set
  \<^verbatim>\<open>ErasedInstructions\<close>, a set of instruction pointers.
\<close>

definition eraseInstructions :: "Module \<Rightarrow> Value set \<Rightarrow> Module" where
  "eraseInstructions M ErasedInstructions =
     M\<lparr>getInstrs := filter (\<lambda>J. asValue J \<notin> ErasedInstructions) (getInstrs M)\<rparr>"

text \<open>
  One iteration of the loop of \<^verbatim>\<open>copyPropagation\<close>, at the instruction number
  \<open>instIdx\<close>. The state is the module and the set \<^verbatim>\<open>ErasedInstructions\<close>; the
  interval map is the one computed before the loop.
\<close>

definition canPropagate :: "Interval \<Rightarrow> Interval \<Rightarrow> bool" where
  "canPropagate SrcInterval DestInterval =
     (snd SrcInterval \<le> fst DestInterval \<or> isEnclosedInside SrcInterval DestInterval)"

definition copyOperands :: "Instruction \<Rightarrow> (Value \<times> Value) option" where
  "copyOperands ci =
     (case getOperands ci of
        dst # src # _ \<Rightarrow> Some (fst dst, fst src)
      | _ \<Rightarrow> None)"

definition propagateFromWeight ::
  "Instruction \<Rightarrow> Value \<Rightarrow> Value \<Rightarrow> Module \<times> Value set \<Rightarrow> error + (Module \<times> Value set)" where
  "propagateFromWeight ci Dest Src s =
     (if mutabilityOf (fst s) Src = Mutable
         \<or> map_option asValue (getSingleWriter (fst s) Dest) \<noteq> Some (asValue ci)
         \<or> getKind Dest = WeightVarKind
      then Inr s
      else (case replaceAllNonDeallocUsersWith (fst s) Dest Src of
              Inl e \<Rightarrow> Inl e
            | Inr M' \<Rightarrow> Inr (M', insert (asValue ci) (snd s))))"

definition propagateIntoDest ::
  "nat \<Rightarrow> Instruction \<Rightarrow> Value \<Rightarrow> Value \<Rightarrow> Interval \<Rightarrow> Module \<times> Value set
     \<Rightarrow> error + (Module \<times> Value set)" where
  "propagateIntoDest instIdx ci Dest Src SrcInterval s =
     (let r = replaceAllUsesWith Src Dest SrcInterval (fst s)
      in if snd r = [] then Inl AssertionFailed
         else (case copyOperands (getInstrs (fst r) ! instIdx) of
                 None \<Rightarrow> Inl AssertionFailed
               | Some p \<Rightarrow> (if snd p \<noteq> fst p then Inl AssertionFailed
                            else Inr (fst r, insert (asValue ci) (snd s)))))"

definition copyPropagationStep ::
  "LiveIntervalsMap \<Rightarrow> nat \<Rightarrow> Module \<times> Value set \<Rightarrow> error + (Module \<times> Value set)" where
  "copyPropagationStep IntervalsMap instIdx s =
     (let ci = getInstrs (fst s) ! instIdx
      in if \<not> isa CopyInstKind ci then Inr s
         else (case copyOperands ci of
                 None \<Rightarrow> Inl AssertionFailed
               | Some (Dest, Src) \<Rightarrow>
                   (if getType Src \<noteq> getType Dest then Inl AssertionFailed
                    else if getKind Src = WeightVarKind then propagateFromWeight ci Dest Src s
                    else if IntervalsMap Src = [] \<or> IntervalsMap Dest = [] then Inr s
                    else (case getEnclosingInterval (IntervalsMap Src) instIdx of
                            None \<Rightarrow> Inr s
                          | Some SrcInterval \<Rightarrow>
                              (case getEnclosingInterval (IntervalsMap Dest) instIdx of
                                 None \<Rightarrow> Inr s
                               | Some DestInterval \<Rightarrow>
                                   (if \<not> canPropagate SrcInterval DestInterval then Inr s
                                    else propagateIntoDest instIdx ci Dest Src SrcInterval s))))))"

fun copyPropagationLoop ::
  "LiveIntervalsMap \<Rightarrow> nat list \<Rightarrow> Module \<times> Value set \<Rightarrow> error + (Module \<times> Value set)" where
  "copyPropagationLoop IntervalsMap [] s = Inr s"
| "copyPropagationLoop IntervalsMap (instIdx # rest) s =
     (case copyPropagationStep IntervalsMap instIdx s of
        Inl e \<Rightarrow> Inl e
      | Inr s' \<Rightarrow> copyPropagationLoop IntervalsMap rest s')"

definition copyPropagation :: "Module \<Rightarrow> error + Module" where
  "copyPropagation M =
     (case calculateLiveIntervals M of
        Inl e \<Rightarrow> Inl e
      | Inr IntervalsMap \<Rightarrow>
          (case copyPropagationLoop IntervalsMap [0 ..< length (getInstrs M)] (M, {}) of
             Inl e \<Rightarrow> Inl e
           | Inr s \<Rightarrow> Inr (eraseInstructions (fst s) (snd s))))"

section \<open>Dead store elimination\<close>

record MemoryLocationState =
  lastSeenRead :: "Value option"
  lastSeenWrite :: "Value option"

type_synonym MemoryState = "Value \<Rightarrow> MemoryLocationState"

text \<open>
  The first operand loop of an instruction: the state is the map \<^verbatim>\<open>memoryState\<close>
  with the counters \<^verbatim>\<open>NumMutatedOperands\<close> and \<^verbatim>\<open>NumNonReadMutatedOperands\<close>.
\<close>

definition dseWrite ::
  "Module \<Rightarrow> Instruction \<Rightarrow> MemoryState \<times> nat \<times> nat \<Rightarrow> Operand \<Rightarrow> MemoryState \<times> nat \<times> nat" where
  "dseWrite M I s Op =
     (let OpOrigin = getOrigin M (fst Op); State = fst s OpOrigin
      in if snd Op \<noteq> In
         then ((fst s)(OpOrigin := \<lparr>lastSeenRead = None, lastSeenWrite = Some (asValue I)\<rparr>),
               Suc (fst (snd s)),
               (if lastSeenRead State = None then Suc (snd (snd s)) else snd (snd s)))
         else s)"

definition dseRead :: "Module \<Rightarrow> Instruction \<Rightarrow> MemoryState \<Rightarrow> Operand \<Rightarrow> MemoryState" where
  "dseRead M I memoryState Op =
     (let OpOrigin = getOrigin M (fst Op)
      in if snd Op \<noteq> Out
         then memoryState(OpOrigin := (memoryState OpOrigin)\<lparr>lastSeenRead := Some (asValue I)\<rparr>)
         else memoryState)"

definition dseStep :: "Module \<Rightarrow> MemoryState \<times> Value set \<Rightarrow> Instruction \<Rightarrow> MemoryState \<times> Value set" where
  "dseStep M s I =
     (if isa DeallocActivationInstKind I \<or> isa AllocActivationInstKind I \<or> isa TensorViewInstKind I
      then s
      else (let w = foldl (dseWrite M I) (fst s, 0, 0) (getOperands I)
            in if fst (snd w) > 0 \<and> fst (snd w) = snd (snd w)
               then (fst w, insert (asValue I) (snd s))
               else (foldl (dseRead M I) (fst w) (getOperands I), snd s)))"

text \<open>
  The fake last read of every weight is \<^verbatim>\<open>*std::prev(instrs.end())\<close>: the last
  instruction of the stream. On an empty stream there is no such instruction and the
  dereference is undefined behaviour; it is evaluated once for every weight.
\<close>

definition seedWeights :: "Module \<Rightarrow> MemoryState" where
  "seedWeights M =
     foldl (\<lambda>ms WV. ms(weightValue WV :=
                         (ms (weightValue WV))\<lparr>lastSeenRead := Some (asValue (last (getInstrs M)))\<rparr>))
           (\<lambda>v. \<lparr>lastSeenRead = None, lastSeenWrite = None\<rparr>) (getWeights M)"

definition eliminateDeadStores :: "Module \<Rightarrow> error + Module" where
  "eliminateDeadStores M =
     (if getWeights M \<noteq> [] \<and> getInstrs M = [] then Inl UndefinedBehavior
      else Inr (eraseInstructions M
                  (snd (foldl (dseStep M) (seedWeights M, {}) (rev (getInstrs M))))))"

section \<open>Creating instructions\<close>

text \<open>
  Modelled from the spec: the builder \<^verbatim>\<open>IRBuilder\<close> and the instruction classes are
  declared in \<^verbatim>\<open>glow/IR/IRBuilder.h\<close> and \<^verbatim>\<open>glow/IR/Instrs.h\<close>, which are not
  among the sources. Section 6: the builder creates kind-tagged instructions and wires
  their users. The operand slots of each kind are those of the table of section 4.10:
  \<open>Copy(dest, src)\<close>, \<open>PoolMax(dest, src)\<close>, \<open>SoftMax(dest, src, selected)\<close>,
  \<open>ElementMax(dest, lhs, rhs)\<close>, \<open>TensorView(src)\<close>, \<open>DebugPrint(src)\<close>, with the
  destination written and every other slot read. A new object gets an address that no
  instruction, operand or weight of the module has; the model takes the successor of the
  largest. Only allocations and views have a type; the type of every other instruction
  is the null type \<open>0\<close>.
\<close>

definition usedAddrs :: "Module \<Rightarrow> nat list" where
  "usedAddrs M =
     map (\<lambda>I. addr (asValue I)) (getInstrs M)
     @ concat (map (\<lambda>I. map (\<lambda>opd. addr (fst opd)) (getOperands I)) (getInstrs M))
     @ map waddr (getWeights M)"

definition newAddr :: "Module \<Rightarrow> nat" where
  "newAddr M = Suc (foldr max (usedAddrs M) 0)"

definition newInstr :: "Module \<Rightarrow> Kind \<Rightarrow> string \<Rightarrow> TypeRef \<Rightarrow> Operand list \<Rightarrow> nat list \<Rightarrow> Instruction" where
  "newInstr M k nm t ops as =
     \<lparr>asValue = \<lparr>getKind = k, addr = newAddr M, getType = t, getName = nm\<rparr>,
      getOperands = ops, attrs = as\<rparr>"

definition createCopyInst :: "Module \<Rightarrow> string \<Rightarrow> Value \<Rightarrow> Value \<Rightarrow> Instruction" where
  "createCopyInst M nm Dest Src = newInstr M CopyInstKind nm 0 [(Dest, Out), (Src, In)] []"

definition createTensorViewInst :: "Module \<Rightarrow> string \<Rightarrow> Value \<Rightarrow> TypeRef \<Rightarrow> Instruction" where
  "createTensorViewInst M nm Src t = newInstr M TensorViewInstKind nm t [(Src, In)] []"

definition createPoolMaxInst :: "Module \<Rightarrow> string \<Rightarrow> Value \<Rightarrow> Value \<Rightarrow> nat list \<Rightarrow> Instruction" where
  "createPoolMaxInst M nm Dest Src as = newInstr M PoolMaxInstKind nm 0 [(Dest, Out), (Src, In)] as"

definition createSoftMaxInst :: "Module \<Rightarrow> string \<Rightarrow> Value \<Rightarrow> Value \<Rightarrow> Value \<Rightarrow> Instruction" where
  "createSoftMaxInst M nm Dest Src Selected =
     newInstr M SoftMaxInstKind nm 0 [(Dest, Out), (Src, In), (Selected, In)] []"

definition createElementMaxInst :: "Module \<Rightarrow> string \<Rightarrow> Value \<Rightarrow> Value \<Rightarrow> Value \<Rightarrow> Instruction" where
  "createElementMaxInst M nm Dest LHS RHS =
     newInstr M ElementMaxInstKind nm 0 [(Dest, Out), (LHS, In), (RHS, In)] []"

definition createDebugPrintInst :: "Module \<Rightarrow> string \<Rightarrow> Value \<Rightarrow> Instruction" where
  "createDebugPrintInst M nm Src = newInstr M DebugPrintInstKind nm 0 [(Src, In)] []"

section \<open>Debug instrumentation\<close>

text \<open>
  The two command line flags \<^verbatim>\<open>-instrument-debug\<close> and \<^verbatim>\<open>-optimize-ir\<close>.
\<close>

record Options =
  optimizeIR :: bool
  instrumentDebug :: bool

definition mkModule :: "WeightVar list \<Rightarrow> Instruction list \<Rightarrow> Module" where
  "mkModule ws l = \<lparr>getInstrs = l, getWeights = ws\<rparr>"

text \<open>
  One operand of the instruction \<open>I\<close>: \<open>before\<close> and \<open>after\<close> are the prints already
  inserted in front of \<open>I\<close> and between \<open>I\<close> and the next instruction.
\<close>

definition instrumentOperand ::
  "WeightVar list \<Rightarrow> Instruction list \<Rightarrow> Instruction \<Rightarrow> Instruction list
     \<Rightarrow> Instruction list \<times> Instruction list \<Rightarrow> Operand \<Rightarrow> Instruction list \<times> Instruction list" where
  "instrumentOperand ws pre I rest s Op =
     (let instrName = getName (asValue I);
          before = (if snd Op \<noteq> Out
                    then fst s @ [createDebugPrintInst (mkModule ws (pre @ fst s @ I # snd s @ rest))
                                    (''debug_print.before.'' @ getName (fst Op) @ ''.'' @ instrName)
                                    (fst Op)]
                    else fst s);
          after = (if snd Op \<noteq> In
                   then snd s @ [createDebugPrintInst (mkModule ws (pre @ before @ I # snd s @ rest))
                                   (''debug_print.after.'' @ getName (fst Op) @ ''.'' @ instrName)
                                   (fst Op)]
                   else snd s)
      in (before, after))"

fun instrumentLoop :: "WeightVar list \<Rightarrow> Instruction list \<Rightarrow> Instruction list \<Rightarrow> Instruction list" where
  "instrumentLoop ws pre [] = pre"
| "instrumentLoop ws pre (I # rest) =
     (if isa DebugPrintInstKind I \<or> isa AllocActivationInstKind I \<or> isa DeallocActivationInstKind I
      then instrumentLoop ws (pre @ [I]) rest
      else (let r = foldl (instrumentOperand ws pre I rest) ([], []) (getOperands I)
            in instrumentLoop ws (pre @ fst r @ I # snd r) rest))"

definition performDebugInstrumentation :: "Options \<Rightarrow> Module \<Rightarrow> Module" where
  "performDebugInstrumentation opts M =
     (if \<not> instrumentDebug opts then M
      else M\<lparr>getInstrs := instrumentLoop (getWeights M) [] (getInstrs M)\<rparr>)"

section \<open>Peephole optimizations\<close>

text \<open>
  The loop of \<^verbatim>\<open>performPeepholeOptimizations\<close> keeps the position \<open>it\<close> of the
  next instruction to look at. The state of the model is the stream split at that
  position: \<open>pre\<close> holds the instructions in front of \<open>it\<close>, and the current instruction
  \<open>I\<close> is followed by \<open>rest\<close>. A builder call followed by
  \<^verbatim>\<open>moveInstruction(cur, New)\<close> links the new instruction in front of the current
  one. One iteration returns the new split. The accessors of the operands of each kind
  are those of section 4.10 of the spec (see the builder above):
  \<open>PoolMaxWithXY(dest, src, srcXY)\<close>, \<open>SoftMaxWithE(dest, src, selected, e)\<close>,
  \<open>Reshape(dest, src)\<close>, \<open>Transpose(dest, src)\<close>, \<open>ElementMax(dest, lhs, rhs)\<close>,
  \<open>TensorView(src)\<close>, \<open>Copy(dest, src)\<close>; an instruction with fewer operands than
  its accessor reads fails the assertion of \<^verbatim>\<open>getOperand\<close>.
\<close>

type_synonym Split = "Instruction list \<times> Instruction list"

definition operandValues :: "Instruction \<Rightarrow> Value list" where
  "operandValues I = map fst (getOperands I)"

definition writtenBySplat :: "Module \<Rightarrow> Value \<Rightarrow> bool" where
  "writtenBySplat M v =
     (case getSingleWriter M v of None \<Rightarrow> False | Some W \<Rightarrow> isa SplatInstKind W)"

definition peepholePoolMaxWithXY ::
  "WeightVar list \<Rightarrow> Instruction list \<Rightarrow> Instruction \<Rightarrow> Instruction list \<Rightarrow> error + Split" where
  "peepholePoolMaxWithXY ws pre I rest =
     (let M = mkModule ws (pre @ I # rest)
      in case operandValues I of
           Dest # Src # SrcXY # _ \<Rightarrow>
             (if getKind SrcXY \<noteq> AllocActivationInstKind \<or> getNumUsers M SrcXY \<noteq> 2
              then Inr (pre @ [I], rest)
              else Inr (pre, createPoolMaxInst M (getName (asValue I)) Dest Src (attrs I) # rest))
         | _ \<Rightarrow> Inl AssertionFailed)"

definition isUsedE :: "Module \<Rightarrow> Instruction \<Rightarrow> Value \<Rightarrow> bool" where
  "isUsedE M SMI E =
     list_ex (\<lambda>U. snd (snd U) \<noteq> Out \<and> asValue (fst U) \<noteq> asValue SMI) (ValueUses M (getOrigin M E))"

definition peepholeSoftMaxWithE ::
  "WeightVar list \<Rightarrow> Instruction list \<Rightarrow> Instruction \<Rightarrow> Instruction list \<Rightarrow> error + Split" where
  "peepholeSoftMaxWithE ws pre I rest =
     (let M = mkModule ws (pre @ I # rest)
      in case operandValues I of
           Dest # Src # Selected # E # _ \<Rightarrow>
             (if isUsedE M I E then Inr (pre @ [I], rest)
              else Inr (pre, createSoftMaxInst M (getName (asValue I)) Dest Src Selected # rest))
         | _ \<Rightarrow> Inl AssertionFailed)"

definition peepholeReshape ::
  "WeightVar list \<Rightarrow> Instruction list \<Rightarrow> Instruction \<Rightarrow> Instruction list \<Rightarrow> error + Split" where
  "peepholeReshape ws pre I rest =
     (case operandValues I of
        Dest # Src # _ \<Rightarrow>
          (let TVI = createTensorViewInst (mkModule ws (pre @ I # rest))
                       (getName (asValue I)) Src (getType Dest);
               CI = createCopyInst (mkModule ws (pre @ TVI # I # rest))
                      (getName (asValue I)) Dest (asValue TVI)
           in Inr (pre, TVI # CI # rest))
      | _ \<Rightarrow> Inl AssertionFailed)"

text \<open>
  The transpose of a value whose single writer is a splat becomes a copy, of a view of the
  value when the types differ. The view is linked in front of the transpose and is not
  looked at again; the copy is the next instruction of the loop.
\<close>

definition peepholeTranspose ::
  "WeightVar list \<Rightarrow> Instruction list \<Rightarrow> Instruction \<Rightarrow> Instruction list \<Rightarrow> error + Split" where
  "peepholeTranspose ws pre I rest =
     (case operandValues I of
        Dest # Src # _ \<Rightarrow>
          (if writtenBySplat (mkModule ws (pre @ I # rest)) Src
           then (if getType Src \<noteq> getType Dest
                 then (let TVI = createTensorViewInst (mkModule ws (pre @ I # rest))
                                   (getName (asValue I)) Src (getType Dest);
                           CI = createCopyInst (mkModule ws (pre @ TVI # I # rest))
                                  (getName (asValue I)) Dest (asValue TVI)
                       in Inr (pre @ [TVI], CI # rest))
                 else Inr (pre, createCopyInst (mkModule ws (pre @ I # rest))
                                  (getName (asValue I)) Dest Src # rest))
           else Inr (pre @ [I], rest))
      | _ \<Rightarrow> Inl AssertionFailed)"

definition peepholeElementMax ::
  "WeightVar list \<Rightarrow> Instruction list \<Rightarrow> Instruction \<Rightarrow> Instruction list \<Rightarrow> error + Split" where
  "peepholeElementMax ws pre I rest =
     (let M = mkModule ws (pre @ I # rest)
      in case operandValues I of
           Dest # LHS # RHS # _ \<Rightarrow>
             (if \<not> writtenBySplat M LHS then Inr (pre @ [I], rest)
              else if writtenBySplat M RHS then Inr (pre @ [I], rest)
              else Inr (pre, createElementMaxInst M (getName (asValue I)) Dest RHS LHS # rest))
         | _ \<Rightarrow> Inl AssertionFailed)"

text \<open>
  A view of the type of its source is replaced by the source in all its users, wherever
  they are in the stream.
\<close>

definition peepholeTensorView ::
  "WeightVar list \<Rightarrow> Instruction list \<Rightarrow> Instruction \<Rightarrow> Instruction list \<Rightarrow> error + Split" where
  "peepholeTensorView ws pre I rest =
     (case operandValues I of
        Src # _ \<Rightarrow>
          (if getType (asValue I) = getType Src
           then (case replaceAllNonDeallocUsersWith (mkModule ws (pre @ I # rest)) (asValue I) Src of
                   Inl e \<Rightarrow> Inl e
                 | Inr M' \<Rightarrow> Inr (take (Suc (length pre)) (getInstrs M'),
                                  drop (Suc (length pre)) (getInstrs M')))
           else Inr (pre @ [I], rest))
      | _ \<Rightarrow> Inl AssertionFailed)"

definition peepholeCopy ::
  "WeightVar list \<Rightarrow> Instruction list \<Rightarrow> Instruction \<Rightarrow> Instruction list \<Rightarrow> error + Split" where
  "peepholeCopy ws pre I rest =
     (let M = mkModule ws (pre @ I # rest)
      in case operandValues I of
           Dest # Src # _ \<Rightarrow>
             (if getOrigin M Src = getOrigin M Dest
              then Inr (getInstrs (eraseInstruction (mkModule ws pre) I),
                        getInstrs (eraseInstruction (mkModule ws rest) I))
              else Inr (pre @ [I], rest))
         | _ \<Rightarrow> Inl AssertionFailed)"

definition peepholeStep ::
  "WeightVar list \<Rightarrow> Instruction list \<Rightarrow> Instruction \<Rightarrow> Instruction list \<Rightarrow> error + Split" where
  "peepholeStep ws pre I rest =
     (if isa PoolMaxWithXYInstKind I then peepholePoolMaxWithXY ws pre I rest
      else if isa SoftMaxWithEInstKind I then peepholeSoftMaxWithE ws pre I rest
      else if isa ReshapeInstKind I then peepholeReshape ws pre I rest
      else if isa TransposeInstKind I then peepholeTranspose ws pre I rest
      else if isa ElementMaxInstKind I then peepholeElementMax ws pre I rest
      else if isa TensorViewInstKind I then peepholeTensorView ws pre I rest
      else if isa CopyInstKind I then peepholeCopy ws pre I rest
      else Inr (pre @ [I], rest))"

text \<open>
  A rewrite makes the new instruction the next one of the loop, so the number of
  iterations is not the length of the stream; the recursion is on fuel. Every instruction
  of the stream is replaced by at most two new ones, none of which is replaced again.
\<close>

fun peepholeLoop :: "nat \<Rightarrow> WeightVar list \<Rightarrow> Instruction list \<Rightarrow> Instruction list \<Rightarrow> error + Instruction list" where
  "peepholeLoop fuel ws pre [] = Inr pre"
| "peepholeLoop 0 ws pre (I # rest) = Inl FuelExhausted"
| "peepholeLoop (Suc fuel) ws pre (I # rest) =
     (case peepholeStep ws pre I rest of
        Inl e \<Rightarrow> Inl e
      | Inr s \<Rightarrow> peepholeLoop fuel ws (fst s) (snd s))"

definition performPeepholeOptimizations :: "Module \<Rightarrow> error + Module" where
  "performPeepholeOptimizations M =
     (case peepholeLoop (3 * length (getInstrs M)) (getWeights M) [] (getInstrs M) of
        Inl e \<Rightarrow> Inl e
      | Inr l \<Rightarrow> Inr (M\<lparr>getInstrs := l\<rparr>))"

section \<open>The pipeline\<close>

text \<open>
  Modelled from the spec: \<^verbatim>\<open>Module::verify\<close> is defined in \<^verbatim>\<open>lib/IR/IR.cpp\<close>,
  which is not among the sources. Section 3 lists the invariants it checks. I1: the
  origin of every operand is a weight of the module or an allocation of the stream.
  I2: an allocation has at most one dealloc, which comes after it, and every other
  instruction that uses the allocation (also through a view) lies between the two.
  I3: a constant weight is only read. I4 says nothing that can be checked and I5 holds by
  the construction of the use lists. A failed check is a failed assertion.
\<close>

definition verifyOperand :: "Module \<Rightarrow> Operand \<Rightarrow> bool" where
  "verifyOperand M opd =
     (let a = getOrigin M (fst opd)
      in (getKind a = WeightVarKind \<and> a \<in> set (map weightValue (getWeights M)))
         \<or> (getKind a = AllocActivationInstKind \<and> a \<in> set (map asValue (getInstrs M))))"

definition usesAlloc :: "Module \<Rightarrow> Value \<Rightarrow> Instruction \<Rightarrow> bool" where
  "usesAlloc M a I = list_ex (\<lambda>opd. getAllocationOrigin M (fst opd) = Some a) (getOperands I)"

definition verifyDealloc :: "Module \<Rightarrow> nat \<Rightarrow> bool" where
  "verifyDealloc M d =
     (let l = getInstrs M; D = l ! d
      in if \<not> isa DeallocActivationInstKind D then True
         else (case getAlloc D of
                 None \<Rightarrow> False
               | Some a \<Rightarrow>
                   list_ex (\<lambda>i. i < d \<and> asValue (l ! i) = a \<and> isa AllocActivationInstKind (l ! i)
                              \<and> list_all (\<lambda>k. k = d \<or> \<not> usesAlloc M a (l ! k) \<or> (i < k \<and> k < d))
                                   [0 ..< length l])
                     [0 ..< length l]))"

definition verify :: "Module \<Rightarrow> bool" where
  "verify M =
     (list_all (\<lambda>I. list_all (verifyOperand M) (getOperands I)) (getInstrs M)
      \<and> list_all (verifyDealloc M) [0 ..< length (getInstrs M)]
      \<and> list_all (\<lambda>W. getMutability W = Constant \<longrightarrow> isReadOnly M W) (getWeights M))"

definition andThen :: "error + 'a \<Rightarrow> ('a \<Rightarrow> error + 'b) \<Rightarrow> error + 'b" where
  "andThen r f = (case r of Inl e \<Rightarrow> Inl e | Inr x \<Rightarrow> f x)"

definition verified :: "Module \<Rightarrow> error + Module" where
  "verified M = (if verify M then Inr M else Inl AssertionFailed)"

text \<open>The passes of \<^verbatim>\<open>glow::optimize\<close> between the two calls of \<^verbatim>\<open>verify\<close>.\<close>

definition optimizePasses :: "InplaceTable \<Rightarrow> Options \<Rightarrow> Module \<Rightarrow> error + Module" where
  "optimizePasses inplace opts M =
     andThen (andThen (andThen (andThen (andThen (andThen (andThen (andThen (andThen (andThen
       (andThen (performPeepholeOptimizations M)
       (shareBuffers inplace))
       deleteDeadAllocs)
       hoistDealloc)
       sinkAllocas)
       (\<lambda>M'. Inr (makeWeightsConst M')))
       copyPropagation)
       performPeepholeOptimizations)
       deleteDeadAllocs)
       eliminateDeadStores)
       deleteDeadAllocs)
       (\<lambda>M'. Inr (performDebugInstrumentation opts M'))"

definition optimize :: "InplaceTable \<Rightarrow> Options \<Rightarrow> Module \<Rightarrow> CompilationMode \<Rightarrow> error + Module" where
  "optimize inplace opts M mode =
     (if \<not> verify M then Inl AssertionFailed
      else if \<not> optimizeIR opts then Inr M
      else andThen (optimizePasses inplace opts M) verified)"

section \<open>Example modules\<close>

text \<open>
  The streams used below as concrete inputs. \<open>A\<close> and \<open>B\<close> are activations of
  different types, \<open>W\<close> is a mutable weight of the type of \<open>A\<close>.
\<close>

definition instr :: "Kind \<Rightarrow> nat \<Rightarrow> string \<Rightarrow> Operand list \<Rightarrow> Instruction" where
  "instr k a nm ops =
     \<lparr>asValue = \<lparr>getKind = k, addr = a, getType = 0, getName = nm\<rparr>, getOperands = ops, attrs = []\<rparr>"

definition bufA :: Value where
  "bufA = \<lparr>getKind = AllocActivationInstKind, addr = 1, getType = 1, getName = ''A''\<rparr>"

definition bufB :: Value where
  "bufB = \<lparr>getKind = AllocActivationInstKind, addr = 2, getType = 2, getName = ''B''\<rparr>"

definition allocOf :: "Value \<Rightarrow> Instruction" where
  "allocOf v = \<lparr>asValue = v, getOperands = [], attrs = []\<rparr>"

definition weightW :: WeightVar where
  "weightW = \<lparr>waddr = 10, wtype = 1, wname = ''W'', getMutability = Mutable\<rparr>"

definition valW :: Value where
  "valW = \<lparr>getKind = WeightVarKind, addr = 10, getType = 1, getName = ''W''\<rparr>"

definition noInplace :: InplaceTable where
  "noInplace I first second = False"

definition splatA :: Instruction where
  "splatA = instr SplatInstKind 3 ''s1'' [(bufA, Out)]"

definition splatB :: Instruction where
  "splatB = instr SplatInstKind 4 ''s2'' [(bufB, Out)]"

definition opWAB :: Instruction where
  "opWAB = instr OtherInstKind 5 ''op'' [(valW, Out), (bufA, In), (bufB, In)]"

definition deallocA :: Instruction where
  "deallocA = instr DeallocActivationInstKind 6 ''d1'' [(bufA, Out)]"

definition deallocB :: Instruction where
  "deallocB = instr DeallocActivationInstKind 7 ''d2'' [(bufB, Out)]"

definition splatW :: Instruction where
  "splatW = instr SplatInstKind 8 ''s3'' [(valW, Out)]"

definition opAA :: Instruction where
  "opAA = instr OtherInstKind 9 ''op2'' [(bufA, Out), (bufA, In)]"

text \<open>
  \<open>A = alloc; B = alloc; splat A; splat B; op(W, A, B); dealloc A; dealloc B\<close>: the last
  use of both activations is the same instruction.
\<close>

definition twoBuffers :: Module where
  "twoBuffers =
     \<lparr>getInstrs = [allocOf bufA, allocOf bufB, splatA, splatB, opWAB, deallocA, deallocB],
      getWeights = [weightW]\<rparr>"

text \<open>
  \<open>A = alloc; op(A, A); dealloc A\<close>: the instruction writes \<open>A\<close> through its first
  operand and reads it through its second one, and nothing reads \<open>A\<close> afterwards.
\<close>

definition readsOwnOutput :: Module where
  "readsOwnOutput = \<lparr>getInstrs = [allocOf bufA, opAA, deallocA], getWeights = []\<rparr>"

text \<open>
  \<open>A = alloc; splat A; dealloc A; splat W\<close>: a store to the weight after a dealloc.
\<close>

definition storeAfterDealloc :: Module where
  "storeAfterDealloc =
     \<lparr>getInstrs = [allocOf bufA, splatA, deallocA, splatW], getWeights = [weightW]\<rparr>"

text \<open>
  \<open>A = alloc; B = alloc; splat A; dealloc A; dealloc B\<close>: nothing uses \<open>B\<close> but its
  dealloc.
\<close>

definition deadBuffer :: Module where
  "deadBuffer =
     \<lparr>getInstrs = [allocOf bufA, allocOf bufB, splatA, deallocA, deallocB], getWeights = []\<rparr>"

text \<open>A module of one weight and no instruction.\<close>

definition onlyWeight :: Module where
  "onlyWeight = \<lparr>getInstrs = [], getWeights = [weightW]\<rparr>"

text \<open>The flags as they are initialised.\<close>

definition defaultOptions :: Options where
  "defaultOptions = \<lparr>optimizeIR = True, instrumentDebug = False\<rparr>"

text \<open>The stream of \<open>twoBuffers\<close> after one run of the optimizer, and after two.\<close>

definition twoBuffersOnce :: Module where
  "twoBuffersOnce =
     \<lparr>getInstrs = [allocOf bufA, splatA, allocOf bufB, splatB, opWAB, deallocB, deallocA],
      getWeights = [weightW]\<rparr>"

definition twoBuffersTwice :: Module where
  "twoBuffersTwice =
     \<lparr>getInstrs = [allocOf bufA, splatA, allocOf bufB, splatB, opWAB, deallocA, deallocB],
      getWeights = [weightW]\<rparr>"

text \<open>
  \<open>A = alloc; C = alloc; splat A; copy C, A; op(W, C); dealloc A; dealloc C\<close>, with
  \<open>C\<close> of the type of \<open>A\<close>: the copy is the last use of \<open>A\<close>.
\<close>

definition bufC :: Value where
  "bufC = \<lparr>getKind = AllocActivationInstKind, addr = 11, getType = 1, getName = ''C''\<rparr>"

definition copyCA :: Instruction where
  "copyCA = instr CopyInstKind 12 ''cp'' [(bufC, Out), (bufA, In)]"

definition opWC :: Instruction where
  "opWC = instr OtherInstKind 13 ''use'' [(valW, Out), (bufC, In)]"

definition deallocC :: Instruction where
  "deallocC = instr DeallocActivationInstKind 14 ''d3'' [(bufC, Out)]"

definition copyChain :: Module where
  "copyChain =
     \<lparr>getInstrs = [allocOf bufA, allocOf bufC, splatA, copyCA, opWC, deallocA, deallocC],
      getWeights = [weightW]\<rparr>"

text \<open>
  The stream of \<open>twoBuffers\<close> with the dealloc of \<open>A\<close> in front of the last
  instruction that uses \<open>A\<close>.
\<close>

definition earlyDealloc :: Module where
  "earlyDealloc =
     \<lparr>getInstrs = [allocOf bufA, allocOf bufB, splatA, deallocA, splatB, opWAB, deallocB],
      getWeights = [weightW]\<rparr>"

section \<open>Notions of the proofs\<close>

text \<open>
  An instruction number is covered by a list of intervals when one of them contains it;
  a liveness map is bounded by \<open>i\<close> when no interval begins or ends after \<open>i\<close>.
\<close>

definition covered :: "Intervals \<Rightarrow> nat \<Rightarrow> bool" where
  "covered ivs idx = (\<exists>I \<in> set ivs. fst I \<le> idx \<and> idx \<le> snd I)"

definition boundedBy :: "LiveIntervalsMap \<Rightarrow> nat \<Rightarrow> bool" where
  "boundedBy L i = (\<forall>loc. \<forall>I \<in> set (L loc). fst I \<le> i \<and> snd I \<le> i)"

text \<open>
  An instruction is unsharable when each pair of its operands has different types, is
  one buffer, or has a weight of the module on one side: no table \<open>inplace\<close> makes
  \<open>tryToShareBuffersForInstr\<close> rewrite it.
\<close>

definition unsharable :: "Module \<Rightarrow> Instruction \<Rightarrow> bool" where
  "unsharable M I =
     list_all (\<lambda>p. getType (shareDest M I (fst p)) \<noteq> getType (shareDest M I (snd p))
                  \<or> shareDest M I (fst p) = shareDest M I (snd p)
                  \<or> shareDest M I (fst p) \<in> set (map weightValue (getWeights M))
                  \<or> shareDest M I (snd p) \<in> set (map weightValue (getWeights M)))
              (operandPairs (getNumOperands I))"

text \<open>
  The condition of section 4.8 of the spec for Case B of copy propagation, in its words:
  \<open>SI\<close> ends before or at the start of \<open>DI\<close>, or \<open>SI.begin < DI.begin\<close> and
  \<open>DI.end \<le> SI.end\<close>.
\<close>

definition fires :: "Interval \<Rightarrow> Interval \<Rightarrow> bool" where
  "fires SI DI = (snd SI \<le> fst DI \<or> (fst SI < fst DI \<and> snd DI \<le> snd SI))"

text \<open>
  The notions of the proof about \<open>hoistDealloc\<close>. An instruction uses the allocation
  \<open>a\<close> when it is not a dealloc and is the allocation itself or has an operand whose
  allocation origin is \<open>a\<close>. The target of a dealloc is the entry of \<open>lastUsers\<close> for
  the origin of its operand. A dealloc is hoistable when the loop gets past its checks:
  it has an operand, the origin of the operand is an allocation, and \<open>lastUsers\<close> has
  an entry for it. \<open>insertAfter\<close> puts an instruction after the first instruction of a
  list that has the address \<open>x\<close>. The deallocs of a list that are pending are those
  whose target comes later in the list: the loop meets them a second time. A list is
  settled when every dealloc in it follows its target with only deallocs in between.
\<close>

definition usesAllocation :: "Module \<Rightarrow> Value \<Rightarrow> Instruction \<Rightarrow> bool" where
  "usesAllocation M a I =
     (\<not> isa DeallocActivationInstKind I \<and>
      (if isa AllocActivationInstKind I then asValue I = a
       else list_ex (\<lambda>opd. getAllocationOrigin M (fst opd) = Some a) (getOperands I)))"

definition target :: "Module \<Rightarrow> Instruction \<Rightarrow> Value option" where
  "target M d = (case getOperands d of [] \<Rightarrow> None | opd # _ \<Rightarrow> lastUsers M (getOrigin M (fst opd)))"

definition insertAfter :: "Value \<Rightarrow> Instruction \<Rightarrow> Instruction list \<Rightarrow> Instruction list" where
  "insertAfter x d pre =
     (let n = Suc (length (takeWhile (\<lambda>J. asValue J \<noteq> x) pre)) in take n pre @ d # drop n pre)"

definition hoistable :: "Module \<Rightarrow> Instruction \<Rightarrow> bool" where
  "hoistable M d =
     (\<not> isa DeallocActivationInstKind d \<or>
      (case getOperands d of
         [] \<Rightarrow> False
       | opd # _ \<Rightarrow> getKind (getOrigin M (fst opd)) = AllocActivationInstKind
                   \<and> lastUsers M (getOrigin M (fst opd)) \<noteq> None))"

fun pending :: "Module \<Rightarrow> Instruction list \<Rightarrow> nat" where
  "pending M [] = 0"
| "pending M (I # rest) =
     (if isa DeallocActivationInstKind I \<and> (\<exists>x \<in> set (map asValue rest). target M I = Some x)
      then 1 else 0) + pending M rest"

definition settled :: "Module \<Rightarrow> Instruction list \<Rightarrow> bool" where
  "settled M l =
     (\<forall>i < length l. isa DeallocActivationInstKind (l ! i) \<longrightarrow>
        (\<exists>j < i. target M (l ! i) = Some (asValue (l ! j))
           \<and> (\<forall>k. j < k \<and> k < i \<longrightarrow> isa DeallocActivationInstKind (l ! k))))"

section \<open>Properties\<close>

subsection \<open>The switch of the optimizer\<close>

text \<open>
  C9. When the flag \<open>optimizeIR\<close> is false, \<open>optimize\<close> checks \<open>verify\<close> and
  returns the module as it is: no pass runs, the stream and the weights (with their
  mutability) are those of the input. A module that fails the check stops at the failed
  assertion.
\<close>

theorem optimize_disabled:
  "\<not> optimizeIR opts \<Longrightarrow>
   optimize inplace opts M mode = (if verify M then Inr M else Inl AssertionFailed)"
  by (simp add: optimize_def)

lemma verify_twoBuffers: "verify twoBuffers"
  by code_simp

theorem optimize_disabled_witness:
  "\<not> optimizeIR \<lparr>optimizeIR = False, instrumentDebug = True\<rparr> \<and>
   optimize noInplace \<lparr>optimizeIR = False, instrumentDebug = True\<rparr> twoBuffers Train
     = Inr twoBuffers"
  using optimize_disabled [of "\<lparr>optimizeIR = False, instrumentDebug = True\<rparr>" noInplace twoBuffers Train]
    verify_twoBuffers
  by simp

subsection \<open>Buffer sharing: the live set\<close>

lemma getAllocationOrigin_kind:
  "getAllocationOrigin M v = Some a \<Longrightarrow> getKind a = AllocActivationInstKind"
  by (auto simp: getAllocationOrigin_def Let_def split: if_splits)

lemma weightValue_kind [simp]: "getKind (weightValue W) = WeightVarKind"
  by (simp add: weightValue_def)

lemma killOperands_append:
  "killOperands M (xs @ ys) s = killOperands M ys (killOperands M xs s)"
  by (simp add: killOperands_def)

lemma killOperands_Cons:
  "killOperands M (x # xs) s = killOperands M xs (killOperand M x s)"
  by (simp add: killOperands_def)

lemma killOperands_Nil: "killOperands M [] s = s"
  by (simp add: killOperands_def)

lemma killOperand_outs_mono: "x \<in> snd s \<Longrightarrow> x \<in> snd (killOperand M opd s)"
  by (auto simp: killOperand_def Let_def split: option.splits)

lemma killOperands_outs_mono: "x \<in> snd s \<Longrightarrow> x \<in> snd (killOperands M ops s)"
  by (induction ops arbitrary: s) (auto simp: killOperands_Nil killOperands_Cons killOperand_outs_mono)

lemma killOperand_Out:
  "getAllocationOrigin M v = Some a \<Longrightarrow>
   killOperand M (v, Out) s = (fst s - {a}, if a \<in> fst s then insert a (snd s) else snd s)"
  by (cases s) (auto simp: killOperand_def)

lemma killOperand_In:
  "getAllocationOrigin M v = Some a \<Longrightarrow>
   killOperand M (v, In) s = (if a \<in> snd s then insert a (fst s) else fst s, snd s)"
  by (cases s) (auto simp: killOperand_def)

text \<open>
  C1, as the code has it. In the first operand loop of \<open>shareBuffers\<close>, with the state
  \<open>s\<close> of live set and \<open>outBuffers\<close>: an operand of kind \<open>Out\<close> whose value has the
  allocation origin \<open>a\<close> leaves \<open>a\<close> outside the live set, and \<open>a\<close> is in
  \<open>outBuffers\<close> afterwards exactly when it was live at that moment or was recorded
  already. An operand of kind \<open>In\<close> with the origin \<open>a\<close> leaves \<open>a\<close> live exactly when
  it was live or is in \<open>outBuffers\<close>. So when \<open>a\<close> is live at the \<open>Out\<close> operand, a
  later \<open>In\<close> operand of the same instruction with the same origin adds it back, whatever
  operands \<open>ys\<close> lie between the two.
\<close>

theorem shareBuffers_out_then_in:
  assumes v: "getAllocationOrigin M v = Some a" and w: "getAllocationOrigin M w = Some a"
  shows "a \<notin> fst (killOperand M (v, Out) s)
       \<and> (a \<in> snd (killOperand M (v, Out) s) \<longleftrightarrow> a \<in> fst s \<or> a \<in> snd s)
       \<and> (a \<in> fst (killOperand M (w, In) s') \<longleftrightarrow> a \<in> fst s' \<or> a \<in> snd s')
       \<and> (a \<in> fst s \<longrightarrow> a \<in> fst (killOperands M ((v, Out) # ys @ [(w, In)]) s))"
proof -
  have 1: "a \<notin> fst (killOperand M (v, Out) s)"
    by (simp add: killOperand_Out [OF v])
  have 2: "a \<in> snd (killOperand M (v, Out) s) \<longleftrightarrow> a \<in> fst s \<or> a \<in> snd s"
    by (simp add: killOperand_Out [OF v])
  have 3: "a \<in> fst (killOperand M (w, In) s') \<longleftrightarrow> a \<in> fst s' \<or> a \<in> snd s'"
    by (auto simp add: killOperand_In [OF w])
  have 4: "a \<in> fst (killOperands M ((v, Out) # ys @ [(w, In)]) s)" if "a \<in> fst s"
  proof -
    from that have "a \<in> snd (killOperand M (v, Out) s)" using 2 by simp
    then have "a \<in> snd (killOperands M ys (killOperand M (v, Out) s))"
      by (rule killOperands_outs_mono)
    then show ?thesis
      by (simp add: killOperands_Cons killOperands_append killOperands_Nil killOperand_In [OF w])
  qed
  from 1 2 3 4 show ?thesis by blast
qed

lemma origin_bufA: "getAllocationOrigin twoBuffers bufA = Some bufA"
  by code_simp

theorem shareBuffers_out_then_in_witness:
  "getAllocationOrigin twoBuffers bufA = Some bufA
   \<and> bufA \<in> fst ({bufA}, {}::Value set)
   \<and> bufA \<in> fst (killOperands twoBuffers ((bufA, Out) # [] @ [(bufA, In)]) ({bufA}, {}))"
  using origin_bufA
    shareBuffers_out_then_in [OF origin_bufA origin_bufA, of "({bufA}, {})" "({bufA}, {})" "[]"]
  by simp

text \<open>
  C1, as the spec states it, fails. In \<open>readsOwnOutput\<close> the walk reaches the
  instruction \<open>op(A, A)\<close> with an empty live set. Its first operand is of kind \<open>Out\<close>
  and has the allocation origin \<open>A\<close>, yet \<open>A\<close> is not recorded in \<open>outBuffers\<close>, and
  the \<open>In\<close> operand with the same origin is not added to the live set by this loop.
\<close>

theorem shareBuffers_out_not_recorded_counterexample:
  "shareWalk noInplace readsOwnOutput 1 = Inr (readsOwnOutput, {})
   \<and> getOperands (getInstrs readsOwnOutput ! 1) = [(bufA, Out), (bufA, In)]
   \<and> getAllocationOrigin readsOwnOutput bufA = Some bufA
   \<and> killOperand readsOwnOutput (bufA, Out) ({}, {}) = ({}, {})
   \<and> killOperands readsOwnOutput [(bufA, Out), (bufA, In)] ({}, {}) = ({}, {})"
  by code_simp

lemma killOperand_keeps:
  "getKind x \<noteq> AllocActivationInstKind \<Longrightarrow> x \<in> fst s \<Longrightarrow> x \<in> fst (killOperand M opd s)"
  by (auto simp: killOperand_def Let_def split: option.splits dest: getAllocationOrigin_kind)

lemma killOperands_keeps:
  "getKind x \<noteq> AllocActivationInstKind \<Longrightarrow> x \<in> fst s \<Longrightarrow> x \<in> fst (killOperands M ops s)"
  by (induction ops arbitrary: s) (auto simp: killOperands_Nil killOperands_Cons killOperand_keeps)

lemma reviveOperands_mono: "x \<in> live \<Longrightarrow> x \<in> reviveOperands M ops live"
  unfolding reviveOperands_def
  by (induction ops arbitrary: live) (auto simp: reviveOperand_def split: option.splits)

lemma tryToShare_cases:
  assumes "tryToShareBuffersForInstr inplace live M I = Inr M'"
  shows "M' = M \<or> (\<exists>dest src. dest \<notin> live \<and> src \<notin> live \<and> dest \<noteq> src
           \<and> M' = M\<lparr>getInstrs := map (replaceOperands dest src) (getInstrs M)\<rparr>)"
proof (cases "find (canShare inplace live M I) (operandPairs (getNumOperands I))")
  case None
  with assms show ?thesis by (simp add: tryToShareBuffersForInstr_def)
next
  case (Some p)
  then have c: "canShare inplace live M I p"
    by (auto simp: find_Some_iff)
  from Some assms
  have r: "replaceAllNonDeallocUsersWith M (shareDest M I (fst p)) (shareDest M I (snd p)) = Inr M'"
    by (simp add: tryToShareBuffersForInstr_def)
  from c have "shareDest M I (fst p) \<notin> live" "shareDest M I (snd p) \<notin> live"
    "shareDest M I (fst p) \<noteq> shareDest M I (snd p)"
    by (auto simp: canShare_def Let_def)
  moreover from r
  have "M' = M\<lparr>getInstrs :=
                 map (replaceOperands (shareDest M I (fst p)) (shareDest M I (snd p))) (getInstrs M)\<rparr>"
    by (auto simp: replaceAllNonDeallocUsersWith_def split: if_splits)
  ultimately show ?thesis by blast
qed

lemma tryToShare_weights:
  "tryToShareBuffersForInstr inplace live M I = Inr M' \<Longrightarrow> getWeights M' = getWeights M"
  by (auto dest!: tryToShare_cases)

lemma replaceOperands_slot:
  assumes "x \<noteq> dest" "x \<noteq> src" "j < length (getOperands J)"
  shows "(fst (getOperands (replaceOperands dest src J) ! j) = x) = (fst (getOperands J ! j) = x)"
  using assms by (auto simp: replaceOperands_def)

lemma replaceOperands_length [simp]:
  "length (getOperands (replaceOperands dest src J)) = length (getOperands J)"
  by (simp add: replaceOperands_def)

lemma tryToShare_slots:
  assumes t: "tryToShareBuffersForInstr inplace live M I = Inr M'" and x: "x \<in> live"
    and i: "i < length (getInstrs M)" and j: "j < length (getOperands (getInstrs M ! i))"
  shows "(fst (getOperands (getInstrs M' ! i) ! j) = x) = (fst (getOperands (getInstrs M ! i) ! j) = x)"
proof -
  from tryToShare_cases [OF t] show ?thesis
  proof
    assume "M' = M" then show ?thesis by simp
  next
    assume "\<exists>dest src. dest \<notin> live \<and> src \<notin> live \<and> dest \<noteq> src
           \<and> M' = M\<lparr>getInstrs := map (replaceOperands dest src) (getInstrs M)\<rparr>"
    then obtain dest src where d: "dest \<notin> live" "src \<notin> live"
      and M': "M' = M\<lparr>getInstrs := map (replaceOperands dest src) (getInstrs M)\<rparr>" by blast
    from d x have "x \<noteq> dest" "x \<noteq> src" by auto
    then show ?thesis using i j M' by (simp add: replaceOperands_slot)
  qed
qed

lemma shareStep_keeps:
  assumes "shareStep inplace pos s = Inr s'"
  shows "getWeights (fst s') = getWeights (fst s)
       \<and> (\<forall>x. getKind x \<noteq> AllocActivationInstKind \<longrightarrow> x \<in> snd s \<longrightarrow> x \<in> snd s')"
  using assms
  by (auto simp: shareStep_def Let_def split: sum.splits
           dest: tryToShare_weights intro!: reviveOperands_mono killOperands_keeps)

lemma shareWalk_keeps:
  "shareWalk inplace M k = Inr s \<Longrightarrow>
   getWeights (fst s) = getWeights M \<and> set (map weightValue (getWeights M)) \<subseteq> snd s"
proof (induction k arbitrary: s)
  case 0
  then show ?case by auto
next
  case (Suc k)
  from Suc.prems obtain s0 where s0: "shareWalk inplace M k = Inr s0"
    and step: "(if k < length (getInstrs (fst s0))
                  then shareStep inplace (length (getInstrs (fst s0)) - Suc k) s0
                  else Inr s0) = Inr s"
    by (auto split: sum.splits)
  from Suc.IH [OF s0] have ih: "getWeights (fst s0) = getWeights M"
    "set (map weightValue (getWeights M)) \<subseteq> snd s0" by auto
  show ?case
  proof (cases "k < length (getInstrs (fst s0))")
    case True
    with step have "shareStep inplace (length (getInstrs (fst s0)) - Suc k) s0 = Inr s" by simp
    from shareStep_keeps [OF this] ih show ?thesis by auto
  next
    case False
    with step ih show ?thesis by simp
  qed
qed

text \<open>
  C10. Let the reverse walk of \<open>shareBuffers\<close> have made any number \<open>k\<close> of iterations
  and stand at the module \<open>Mk\<close> with the live set \<open>live\<close>. Every weight \<open>W\<close> of the
  module is in the live set there, and it is still in the live set that the first operand
  loop hands to \<open>tryToShareBuffersForInstr\<close>, for any operand list \<open>ops\<close>. The rewrite
  that \<open>tryToShareBuffersForInstr\<close> makes with that live set does not touch the users of
  \<open>W\<close>: an operand slot points to \<open>W\<close> after the rewrite exactly when it did before.
\<close>

theorem shareBuffers_weights_live:
  assumes walk: "shareWalk inplace M k = Inr (Mk, live)" and W: "W \<in> set (getWeights M)"
  shows "weightValue W \<in> live
       \<and> weightValue W \<in> fst (killOperands Mk ops (live, {}))
       \<and> (\<forall>M'. tryToShareBuffersForInstr inplace (fst (killOperands Mk ops (live, {}))) Mk I = Inr M'
             \<longrightarrow> (\<forall>i < length (getInstrs Mk). \<forall>j < length (getOperands (getInstrs Mk ! i)).
                    (fst (getOperands (getInstrs M' ! i) ! j) = weightValue W)
                      = (fst (getOperands (getInstrs Mk ! i) ! j) = weightValue W)))"
proof -
  from shareWalk_keeps [OF walk] W have 1: "weightValue W \<in> live" by auto
  then have 2: "weightValue W \<in> fst (killOperands Mk ops (live, {}))"
    by (intro killOperands_keeps) auto
  show ?thesis using 1 2 by (auto simp: tryToShare_slots)
qed

lemma shareWalk_twoBuffers: "shareWalk noInplace twoBuffers 3 = Inr (twoBuffers, {valW, bufA, bufB})"
  by code_simp

lemma weightW_twoBuffers: "weightW \<in> set (getWeights twoBuffers)"
  by code_simp

theorem shareBuffers_weights_live_witness:
  "shareWalk noInplace twoBuffers 3 = Inr (twoBuffers, {valW, bufA, bufB})
   \<and> weightW \<in> set (getWeights twoBuffers)
   \<and> weightValue weightW \<in> {valW, bufA, bufB}
   \<and> weightValue weightW
       \<in> fst (killOperands twoBuffers (getOperands (getInstrs twoBuffers ! 3)) ({valW, bufA, bufB}, {}))"
  using shareWalk_twoBuffers weightW_twoBuffers
    shareBuffers_weights_live [OF shareWalk_twoBuffers weightW_twoBuffers,
      of "getOperands (getInstrs twoBuffers ! 3)"]
  by simp

subsection \<open>Live intervals: numbering and order of the operands\<close>

lemma liveWalk_index: "liveWalk M l i L = Inr r \<Longrightarrow> snd r = i + length l"
  by (induction l arbitrary: i L) (auto split: if_splits sum.splits)

lemma liveWalk_append:
  "liveWalk M (pre @ rest) i L =
     andThen (liveWalk M pre i L) (\<lambda>r. liveWalk M rest (i + length pre) (fst r))"
  by (induction pre arbitrary: i L) (auto simp: andThen_def split: sum.splits)

lemma sortOperands_reads_first:
  assumes "p < q" "q < length ops" "fst (sortOperands ops ! p) = fst (sortOperands ops ! q)"
  shows "kindRank (snd (sortOperands ops ! p)) \<le> kindRank (snd (sortOperands ops ! q))"
proof -
  have len: "length (sortOperands ops) = length ops" by (simp add: sortOperands_def)
  have "sorted (map operandKey (sortOperands ops))" by (simp add: sortOperands_def)
  then have "map operandKey (sortOperands ops) ! p \<le> map operandKey (sortOperands ops) ! q"
    using assms len by (intro sorted_nth_mono) auto
  then have "operandKey (sortOperands ops ! p) \<le> operandKey (sortOperands ops ! q)"
    using assms len by simp
  with assms(3) show ?thesis by (simp add: operandKey_def less_eq_prod_def)
qed

text \<open>
  C2, as the code has it. The running index of \<open>calculateLiveIntervals\<close> is the
  position in the stream: the instruction \<open>I\<close> that follows the instructions \<open>pre\<close> is
  met with the index \<open>length pre\<close>, and the walk goes on behind it with the successor of
  that index, whether \<open>I\<close> is a dealloc or not. The operands of a dealloc are not
  processed. The operands of any other instruction are processed in the order of
  \<open>sortOperands\<close>: a permutation of the operands, sorted by address and then by kind, in
  which of two operands of the same value the one of the lower kind comes first
  (\<open>In\<close> before \<open>InOut\<close> before \<open>Out\<close>), so that the reads of a location are processed
  before the write to it.
\<close>

theorem calculateLiveIntervals_numbering:
  "(\<forall>r. liveWalk M (pre @ I # rest) 0 L = Inr r \<longrightarrow>
      (\<exists>L1. liveWalk M pre 0 L = Inr (L1, length pre)
         \<and> liveWalk M (I # rest) (length pre) L1 = Inr r
         \<and> (isa DeallocActivationInstKind I \<longrightarrow> liveWalk M rest (Suc (length pre)) L1 = Inr r)
         \<and> (\<not> isa DeallocActivationInstKind I \<longrightarrow>
              (\<exists>L2. liveOperands M I (length pre) L1 (sortOperands (getOperands I)) = Inr L2
                  \<and> liveWalk M rest (Suc (length pre)) L2 = Inr r))))
   \<and> mset (sortOperands ops) = mset ops
   \<and> sorted (map operandKey (sortOperands ops))
   \<and> (\<forall>p q. p < q \<and> q < length ops \<and> fst (sortOperands ops ! p) = fst (sortOperands ops ! q)
         \<longrightarrow> kindRank (snd (sortOperands ops ! p)) \<le> kindRank (snd (sortOperands ops ! q)))"
proof -
  have 1: "\<exists>L1. liveWalk M pre 0 L = Inr (L1, length pre)
         \<and> liveWalk M (I # rest) (length pre) L1 = Inr r
         \<and> (isa DeallocActivationInstKind I \<longrightarrow> liveWalk M rest (Suc (length pre)) L1 = Inr r)
         \<and> (\<not> isa DeallocActivationInstKind I \<longrightarrow>
              (\<exists>L2. liveOperands M I (length pre) L1 (sortOperands (getOperands I)) = Inr L2
                  \<and> liveWalk M rest (Suc (length pre)) L2 = Inr r))"
    if w: "liveWalk M (pre @ I # rest) 0 L = Inr r" for r
  proof -
    from w obtain r1 where p: "liveWalk M pre 0 L = Inr r1"
      and s: "liveWalk M (I # rest) (length pre) (fst r1) = Inr r"
      by (auto simp: liveWalk_append andThen_def split: sum.splits)
    from liveWalk_index [OF p] have "r1 = (fst r1, length pre)"
      by (cases r1) simp
    with p have p': "liveWalk M pre 0 L = Inr (fst r1, length pre)" by simp
    from s have "isa DeallocActivationInstKind I \<longrightarrow> liveWalk M rest (Suc (length pre)) (fst r1) = Inr r"
      by (auto split: if_splits)
    moreover from s have "\<not> isa DeallocActivationInstKind I \<longrightarrow>
              (\<exists>L2. liveOperands M I (length pre) (fst r1) (sortOperands (getOperands I)) = Inr L2
                  \<and> liveWalk M rest (Suc (length pre)) L2 = Inr r)"
      by (auto split: sum.splits if_splits)
    ultimately show ?thesis using p' s by blast
  qed
  have 2: "mset (sortOperands ops) = mset ops" by (simp add: sortOperands_def)
  have 3: "sorted (map operandKey (sortOperands ops))" by (simp add: sortOperands_def)
  from 1 2 3 sortOperands_reads_first show ?thesis by blast
qed

lemma isa_deallocA: "isa DeallocActivationInstKind deallocA"
  by code_simp

lemma calc_storeAfterDealloc:
  "case calculateLiveIntervals storeAfterDealloc of Inl e \<Rightarrow> False | Inr r \<Rightarrow> True"
  by code_simp

lemma instrs_storeAfterDealloc:
  "getInstrs storeAfterDealloc = [allocOf bufA, splatA] @ deallocA # [splatW]"
  by (simp add: storeAfterDealloc_def)

lemma liveWalk_storeAfterDealloc:
  "\<exists>r. liveWalk storeAfterDealloc ([allocOf bufA, splatA] @ deallocA # [splatW]) 0 (\<lambda>v. []) = Inr r"
  using calc_storeAfterDealloc unfolding calculateLiveIntervals_def instrs_storeAfterDealloc
  by (cases "liveWalk storeAfterDealloc ([allocOf bufA, splatA] @ deallocA # [splatW]) 0 (\<lambda>v. [])") simp_all

theorem calculateLiveIntervals_numbering_witness:
  "isa DeallocActivationInstKind deallocA
   \<and> (\<exists>r L1. liveWalk storeAfterDealloc ([allocOf bufA, splatA] @ deallocA # [splatW]) 0 (\<lambda>v. []) = Inr r
        \<and> liveWalk storeAfterDealloc [splatW] (Suc (length [allocOf bufA, splatA])) L1 = Inr r)"
proof -
  from liveWalk_storeAfterDealloc obtain r where
    r: "liveWalk storeAfterDealloc ([allocOf bufA, splatA] @ deallocA # [splatW]) 0 (\<lambda>v. []) = Inr r" ..
  have "\<forall>r. liveWalk storeAfterDealloc ([allocOf bufA, splatA] @ deallocA # [splatW]) 0 (\<lambda>v. []) = Inr r \<longrightarrow>
      (\<exists>L1. liveWalk storeAfterDealloc [allocOf bufA, splatA] 0 (\<lambda>v. []) = Inr (L1, length [allocOf bufA, splatA])
         \<and> liveWalk storeAfterDealloc (deallocA # [splatW]) (length [allocOf bufA, splatA]) L1 = Inr r
         \<and> (isa DeallocActivationInstKind deallocA \<longrightarrow>
              liveWalk storeAfterDealloc [splatW] (Suc (length [allocOf bufA, splatA])) L1 = Inr r)
         \<and> (\<not> isa DeallocActivationInstKind deallocA \<longrightarrow>
              (\<exists>L2. liveOperands storeAfterDealloc deallocA (length [allocOf bufA, splatA]) L1
                       (sortOperands (getOperands deallocA)) = Inr L2
                  \<and> liveWalk storeAfterDealloc [splatW] (Suc (length [allocOf bufA, splatA])) L2 = Inr r)))"
    using calculateLiveIntervals_numbering
         [of storeAfterDealloc "[allocOf bufA, splatA]" deallocA "[splatW]" "\<lambda>v. []" "[]"]
    by (rule conjunct1)
  then obtain L1 where
    "isa DeallocActivationInstKind deallocA \<longrightarrow>
       liveWalk storeAfterDealloc [splatW] (Suc (length [allocOf bufA, splatA])) L1 = Inr r"
    using r by blast
  with isa_deallocA
  have "liveWalk storeAfterDealloc [splatW] (Suc (length [allocOf bufA, splatA])) L1 = Inr r"
    by (rule_tac mp)
  with r isa_deallocA show ?thesis by (intro conjI exI)
qed

text \<open>
  C2, as the spec states it, fails: a dealloc advances the index. In
  \<open>storeAfterDealloc\<close> the instruction at position 2 is a dealloc; the index is 2 when
  the walk reaches it and 3 behind it, and the store to \<open>W\<close> that follows is numbered 3
  (the interval of \<open>W\<close> begins at 3 and is extended to the end of the stream, 4).
\<close>

theorem calculateLiveIntervals_dealloc_counterexample:
  "isa DeallocActivationInstKind (getInstrs storeAfterDealloc ! 2)
   \<and> map_sum id snd (liveWalk storeAfterDealloc (take 2 (getInstrs storeAfterDealloc)) 0 (\<lambda>v. [])) = Inr 2
   \<and> map_sum id snd (liveWalk storeAfterDealloc (take 3 (getInstrs storeAfterDealloc)) 0 (\<lambda>v. [])) = Inr 3
   \<and> map_sum id (\<lambda>L. L valW) (calculateLiveIntervals storeAfterDealloc) = Inr [(3, 4)]"
  by code_simp

subsection \<open>Live intervals: coverage\<close>

lemma covered_enclosing: "covered ivs idx \<longleftrightarrow> getEnclosingInterval ivs idx \<noteq> None"
  unfolding covered_def getEnclosingInterval_def find_None_iff by blast

lemma boundedBy_mono: "boundedBy L i \<Longrightarrow> i \<le> j \<Longrightarrow> boundedBy L j"
  by (fastforce simp: boundedBy_def)

lemma set_extendLast:
  "ivs \<noteq> [] \<Longrightarrow> set (extendLast ivs i) = set (butlast ivs) \<union> {(fst (last ivs), i)}"
  by (simp add: extendLast_def)

lemma covered_extendLast:
  assumes ne: "ivs \<noteq> []" and b: "\<forall>I \<in> set ivs. snd I \<le> i" and c: "covered ivs idx"
  shows "covered (extendLast ivs i) idx"
proof -
  from c obtain I where I: "I \<in> set ivs" "fst I \<le> idx" "idx \<le> snd I"
    by (auto simp: covered_def)
  from ne have "ivs = butlast ivs @ [last ivs]" by simp
  then have "set ivs = set (butlast ivs) \<union> {last ivs}"
    by (metis list.set(1) list.simps(15) set_append)
  with I have "I \<in> set (butlast ivs) \<or> I = last ivs" by auto
  then show ?thesis
  proof
    assume "I \<in> set (butlast ivs)"
    with I ne show ?thesis by (auto simp: covered_def set_extendLast)
  next
    assume l: "I = last ivs"
    from b I have "snd I \<le> i" by auto
    with I l have "fst (fst (last ivs), i) \<le> idx \<and> idx \<le> snd (fst (last ivs), i)" by auto
    with ne show ?thesis unfolding covered_def set_extendLast [OF ne] by blast
  qed
qed

lemma covered_extendLast_self:
  assumes ne: "ivs \<noteq> []" and b: "\<forall>I \<in> set ivs. fst I \<le> i"
  shows "covered (extendLast ivs i) i"
proof -
  from ne have "last ivs \<in> set ivs" by simp
  with b have "fst (last ivs) \<le> i" by auto
  then show ?thesis unfolding covered_def set_extendLast [OF ne] by auto
qed

lemma bounded_extendLast:
  assumes ne: "ivs \<noteq> []" and b: "\<forall>I \<in> set ivs. fst I \<le> i \<and> snd I \<le> i"
  shows "\<forall>I \<in> set (extendLast ivs i). fst I \<le> i \<and> snd I \<le> i"
proof -
  from ne have "last ivs \<in> set ivs" by simp
  with b have "fst (last ivs) \<le> i" by auto
  moreover have "set (butlast ivs) \<subseteq> set ivs" by (auto dest: in_set_butlastD)
  ultimately show ?thesis using b unfolding set_extendLast [OF ne] by auto
qed

lemma liveOperand_step:
  assumes step: "liveOperand M I i L opd = Inr L'" and inv: "boundedBy L i"
  shows "boundedBy L' i
       \<and> (\<forall>loc idx. covered (L loc) idx \<longrightarrow> covered (L' loc) idx)
       \<and> (\<forall>loc. memoryLocation M (fst opd) = Some loc \<longrightarrow> covered (L' loc) i)"
proof (cases "memoryLocation M (fst opd)")
  case None
  with step inv show ?thesis by (simp add: liveOperand_def)
next
  case (Some loc)
  from inv have b: "\<forall>I \<in> set (L loc). fst I \<le> i \<and> snd I \<le> i"
    by (simp add: boundedBy_def)
  show ?thesis
  proof (cases "L loc = []")
    case True
    with step Some have L': "L' = L(loc := [(i, i)])"
      by (auto simp: liveOperand_def split: if_splits)
    have "boundedBy L' i" using inv by (auto simp: boundedBy_def L')
    moreover have "\<forall>l idx. covered (L l) idx \<longrightarrow> covered (L' l) idx"
      using True by (auto simp: L' covered_def)
    moreover have "covered (L' loc) i" by (simp add: L' covered_def)
    ultimately show ?thesis using Some by simp
  next
    case False
    define ivs1 where "ivs1 = (if snd opd \<noteq> Out \<or> snd (last (L loc)) \<noteq> fst (last (L loc))
                             then extendLast (L loc) i else L loc)"
    have b1: "\<forall>I \<in> set ivs1. fst I \<le> i \<and> snd I \<le> i"
      using b bounded_extendLast [OF False b] by (auto simp: ivs1_def)
    have c1: "covered ivs1 idx" if "covered (L loc) idx" for idx
      using that covered_extendLast [OF False, of i idx] b by (auto simp: ivs1_def)
    have s1: "snd opd \<noteq> Out \<Longrightarrow> covered ivs1 i"
      using covered_extendLast_self [OF False, of i] b by (auto simp: ivs1_def)
    show ?thesis
    proof (cases "snd opd = In \<or> snd opd = InOut")
      case True
      with step Some False have L': "L' = L(loc := ivs1)"
        by (auto simp: liveOperand_def Let_def ivs1_def split: if_splits)
      have "boundedBy L' i" using inv b1 by (auto simp: boundedBy_def L')
      moreover have "\<forall>l idx. covered (L l) idx \<longrightarrow> covered (L' l) idx"
        using c1 by (auto simp: L')
      moreover have "covered (L' loc) i" using s1 True by (auto simp: L')
      ultimately show ?thesis using Some by simp
    next
      case F2: False
      with step Some False have L': "L' = L(loc := ivs1 @ [(i, i)])"
        by (auto simp: liveOperand_def Let_def ivs1_def split: if_splits)
      have "boundedBy L' i" using inv b1 by (auto simp: boundedBy_def L')
      moreover have "\<forall>l idx. covered (L l) idx \<longrightarrow> covered (L' l) idx"
        using c1 by (auto simp: L' covered_def)
      moreover have "covered (L' loc) i" by (auto simp: L' covered_def)
      ultimately show ?thesis using Some by simp
    qed
  qed
qed

lemma liveOperands_steps:
  assumes "liveOperands M I i L ops = Inr L'" and "boundedBy L i"
  shows "boundedBy L' i
       \<and> (\<forall>loc idx. covered (L loc) idx \<longrightarrow> covered (L' loc) idx)
       \<and> (\<forall>opd \<in> set ops. \<forall>loc. memoryLocation M (fst opd) = Some loc \<longrightarrow> covered (L' loc) i)"
  using assms
proof (induction ops arbitrary: L)
  case Nil
  then show ?case by simp
next
  case (Cons opd ops)
  from Cons.prems obtain L1 where 1: "liveOperand M I i L opd = Inr L1"
    and 2: "liveOperands M I i L1 ops = Inr L'"
    by (auto split: sum.splits)
  from liveOperand_step [OF 1 Cons.prems(2)]
  have a: "boundedBy L1 i" "\<And>loc idx. covered (L loc) idx \<Longrightarrow> covered (L1 loc) idx"
    "\<And>loc. memoryLocation M (fst opd) = Some loc \<Longrightarrow> covered (L1 loc) i" by auto
  from Cons.IH [OF 2 a(1)]
  have b: "boundedBy L' i" "\<And>loc idx. covered (L1 loc) idx \<Longrightarrow> covered (L' loc) idx"
    "\<And>o' loc. o' \<in> set ops \<Longrightarrow> memoryLocation M (fst o') = Some loc \<Longrightarrow> covered (L' loc) i"
    by auto
  show ?case using a b by auto
qed

lemma set_sortOperands [simp]: "set (sortOperands ops) = set ops"
  by (simp add: sortOperands_def)

lemma liveWalk_covers:
  assumes "liveWalk M l i L = Inr (L', i')" and "boundedBy L i"
  shows "i' = i + length l \<and> boundedBy L' i'
       \<and> (\<forall>loc idx. covered (L loc) idx \<longrightarrow> covered (L' loc) idx)
       \<and> (\<forall>k < length l. \<not> isa DeallocActivationInstKind (l ! k) \<longrightarrow>
            (\<forall>opd \<in> set (getOperands (l ! k)). \<forall>loc.
               memoryLocation M (fst opd) = Some loc \<longrightarrow> covered (L' loc) (i + k)))"
  using assms
proof (induction l arbitrary: i L)
  case Nil
  then show ?case by simp
next
  case (Cons I rest)
  show ?case
  proof (cases "isa DeallocActivationInstKind I")
    case True
    with Cons.prems have w: "liveWalk M rest (Suc i) L = Inr (L', i')" by simp
    from Cons.IH [OF w boundedBy_mono [OF Cons.prems(2)]]
    have ih: "i' = Suc i + length rest" "boundedBy L' i'"
      "\<And>loc idx. covered (L loc) idx \<Longrightarrow> covered (L' loc) idx"
      "\<And>k opd loc. k < length rest \<Longrightarrow> \<not> isa DeallocActivationInstKind (rest ! k) \<Longrightarrow>
          opd \<in> set (getOperands (rest ! k)) \<Longrightarrow> memoryLocation M (fst opd) = Some loc \<Longrightarrow>
          covered (L' loc) (Suc i + k)"
      by auto
    have "covered (L' loc) (i + k)"
      if "k < length (I # rest)" "\<not> isa DeallocActivationInstKind ((I # rest) ! k)"
        "opd \<in> set (getOperands ((I # rest) ! k))" "memoryLocation M (fst opd) = Some loc"
      for k opd loc
    proof (cases k)
      case 0
      with that True show ?thesis by simp
    next
      case (Suc k')
      with that ih(4) [of k' opd loc] show ?thesis by simp
    qed
    with ih show ?thesis by auto
  next
    case False
    with Cons.prems obtain L1 where
      o: "liveOperands M I i L (sortOperands (getOperands I)) = Inr L1"
      and w: "liveWalk M rest (Suc i) L1 = Inr (L', i')"
      by (auto split: sum.splits)
    from liveOperands_steps [OF o Cons.prems(2)]
    have a: "boundedBy L1 i" "\<And>loc idx. covered (L loc) idx \<Longrightarrow> covered (L1 loc) idx"
      "\<And>opd loc. opd \<in> set (getOperands I) \<Longrightarrow> memoryLocation M (fst opd) = Some loc \<Longrightarrow>
          covered (L1 loc) i"
      by auto
    from Cons.IH [OF w boundedBy_mono [OF a(1)]]
    have ih: "i' = Suc i + length rest" "boundedBy L' i'"
      "\<And>loc idx. covered (L1 loc) idx \<Longrightarrow> covered (L' loc) idx"
      "\<And>k opd loc. k < length rest \<Longrightarrow> \<not> isa DeallocActivationInstKind (rest ! k) \<Longrightarrow>
          opd \<in> set (getOperands (rest ! k)) \<Longrightarrow> memoryLocation M (fst opd) = Some loc \<Longrightarrow>
          covered (L' loc) (Suc i + k)"
      by auto
    have "covered (L' loc) (i + k)"
      if "k < length (I # rest)" "\<not> isa DeallocActivationInstKind ((I # rest) ! k)"
        "opd \<in> set (getOperands ((I # rest) ! k))" "memoryLocation M (fst opd) = Some loc"
      for k opd loc
    proof (cases k)
      case 0
      with that a(3) [of opd loc] ih(3) show ?thesis by simp
    next
      case (Suc k')
      with that ih(4) [of k' opd loc] show ?thesis by simp
    qed
    with ih a show ?thesis by auto
  qed
qed

lemma covered_extendWeights:
  assumes "boundedBy L n" and "covered (L loc) idx"
  shows "covered (extendWeights L n loc) idx"
proof (cases "getKind loc = WeightVarKind \<and> L loc \<noteq> []")
  case True
  with assms have "covered (extendLast (L loc) n) idx"
    by (intro covered_extendLast) (auto simp: boundedBy_def)
  with True show ?thesis by (simp add: extendWeights_def)
next
  case False
  with assms show ?thesis by (auto simp: extendWeights_def)
qed

text \<open>
  C4. In the result \<open>L\<close> of \<open>calculateLiveIntervals\<close>, for every instruction of the
  stream that is not a dealloc, at its position \<open>idx\<close>, and every operand of it that is a
  memory location (an allocation or a weight that is not constant; the location is the
  operand itself): one of the intervals recorded for the location contains \<open>idx\<close>.
\<close>

theorem calculateLiveIntervals_covers:
  assumes calc: "calculateLiveIntervals M = Inr L"
    and idx: "idx < length (getInstrs M)"
    and nd: "\<not> isa DeallocActivationInstKind (getInstrs M ! idx)"
    and opd: "opd \<in> set (getOperands (getInstrs M ! idx))"
    and loc: "memoryLocation M (fst opd) = Some loc"
  shows "loc = fst opd \<and> getEnclosingInterval (L loc) idx \<noteq> None"
proof -
  from calc obtain L1 n where w: "liveWalk M (getInstrs M) 0 (\<lambda>v. []) = Inr (L1, n)"
    and L: "L = extendWeights L1 n"
    by (auto simp: calculateLiveIntervals_def split: sum.splits)
  have b0: "boundedBy (\<lambda>v. []) 0" by (simp add: boundedBy_def)
  from liveWalk_covers [OF w b0] idx nd opd loc
  have "boundedBy L1 n" "covered (L1 loc) idx" by auto
  then have "covered (L loc) idx" unfolding L by (rule covered_extendWeights)
  moreover from loc have "loc = fst opd"
    by (auto simp: memoryLocation_def split: if_splits)
  ultimately show ?thesis by (simp add: covered_enclosing)
qed

lemma calc_twoBuffers: "\<exists>L. calculateLiveIntervals twoBuffers = Inr L"
proof -
  have "case calculateLiveIntervals twoBuffers of Inl e \<Rightarrow> False | Inr L \<Rightarrow> True"
    by code_simp
  then show ?thesis by (auto split: sum.splits)
qed

lemma use_twoBuffers:
  "4 < length (getInstrs twoBuffers) \<and> \<not> isa DeallocActivationInstKind (getInstrs twoBuffers ! 4)
   \<and> (bufA, In) \<in> set (getOperands (getInstrs twoBuffers ! 4))
   \<and> memoryLocation twoBuffers (fst (bufA, In)) = Some bufA"
  by code_simp

theorem calculateLiveIntervals_covers_witness:
  "4 < length (getInstrs twoBuffers) \<and> \<not> isa DeallocActivationInstKind (getInstrs twoBuffers ! 4)
   \<and> (bufA, In) \<in> set (getOperands (getInstrs twoBuffers ! 4))
   \<and> memoryLocation twoBuffers (fst (bufA, In)) = Some bufA
   \<and> (\<exists>L. calculateLiveIntervals twoBuffers = Inr L \<and> getEnclosingInterval (L bufA) 4 \<noteq> None)"
proof -
  from calc_twoBuffers obtain L where L: "calculateLiveIntervals twoBuffers = Inr L" ..
  from use_twoBuffers
  have "getEnclosingInterval (L bufA) 4 \<noteq> None"
    using calculateLiveIntervals_covers [OF L, of 4 "(bufA, In)" bufA] by blast
  with L use_twoBuffers show ?thesis by blast
qed

subsection \<open>Dead allocations\<close>

lemma foldl_eraseInstruction:
  "foldl eraseInstruction M E =
     M\<lparr>getInstrs := filter (\<lambda>J. asValue J \<notin> asValue ` set E) (getInstrs M)\<rparr>"
proof (induction E arbitrary: M)
  case Nil
  then show ?case by simp
next
  case (Cons I E)
  have "foldl eraseInstruction M (I # E) = foldl eraseInstruction (eraseInstruction M I) E"
    by simp
  also have "\<dots> = (eraseInstruction M I)\<lparr>getInstrs :=
        filter (\<lambda>J. asValue J \<notin> asValue ` set E) (getInstrs (eraseInstruction M I))\<rparr>"
    by (rule Cons.IH)
  also have "\<dots> = M\<lparr>getInstrs := filter (\<lambda>J. asValue J \<notin> asValue ` set (I # E)) (getInstrs M)\<rparr>"
    by (auto simp: eraseInstruction_def intro: filter_cong)
  finally show ?case .
qed

lemma erasePass_filter:
  assumes d: "distinct (map asValue (getInstrs M))"
  shows "erasePass dead M = M\<lparr>getInstrs := filter (\<lambda>I. \<not> dead M I) (getInstrs M)\<rparr>"
proof -
  from d have inj: "inj_on asValue (set (getInstrs M))" by (simp add: distinct_map)
  have "filter (\<lambda>J. asValue J \<notin> asValue ` set (filter (dead M) (getInstrs M))) (getInstrs M)
        = filter (\<lambda>I. \<not> dead M I) (getInstrs M)"
  proof (rule filter_cong [OF refl])
    fix J assume J: "J \<in> set (getInstrs M)"
    show "(asValue J \<notin> asValue ` set (filter (dead M) (getInstrs M))) = (\<not> dead M J)"
    proof
      assume "asValue J \<notin> asValue ` set (filter (dead M) (getInstrs M))"
      with J show "\<not> dead M J" by auto
    next
      assume n: "\<not> dead M J"
      show "asValue J \<notin> asValue ` set (filter (dead M) (getInstrs M))"
      proof
        assume "asValue J \<in> asValue ` set (filter (dead M) (getInstrs M))"
        then obtain K where K: "K \<in> set (getInstrs M)" "dead M K" "asValue K = asValue J" by auto
        with inj J have "K = J" by (auto dest: inj_onD)
        with K n show False by simp
      qed
    qed
  qed
  then show ?thesis by (simp add: erasePass_def foldl_eraseInstruction)
qed

text \<open>
  C6. On a stream of distinct instructions whose deallocs have their operand,
  \<open>deleteDeadAllocs\<close> returns the module \<open>M3\<close> reached by three erasures in this
  order: the views without users in \<open>M\<close>; then the deallocs whose allocation has fewer
  than two users in the module \<open>M1\<close> left by the first erasure; then the allocations
  with fewer than two users in the module \<open>M2\<close> left by the second. Nothing else is
  erased: every instruction of \<open>M\<close> is in \<open>M3\<close>, unchanged and in its place, or was
  one of those; the weights are those of \<open>M\<close>.
\<close>

theorem deleteDeadAllocs_three_passes:
  assumes d: "distinct (map asValue (getInstrs M))"
    and ops: "\<forall>I \<in> set (getInstrs M). isa DeallocActivationInstKind I \<longrightarrow> getOperands I \<noteq> []"
  shows "\<exists>M1 M2 M3.
           M1 = M\<lparr>getInstrs := filter (\<lambda>I. \<not> isDeadTensorView M I) (getInstrs M)\<rparr>
         \<and> M2 = M1\<lparr>getInstrs := filter (\<lambda>I. \<not> isDeadDealloc M1 I) (getInstrs M1)\<rparr>
         \<and> M3 = M2\<lparr>getInstrs := filter (\<lambda>I. \<not> isDeadAlloc M2 I) (getInstrs M2)\<rparr>
         \<and> deleteDeadAllocs M = Inr M3
         \<and> getWeights M3 = getWeights M
         \<and> (\<forall>I \<in> set (getInstrs M). I \<in> set (getInstrs M3) \<or>
               isDeadTensorView M I \<or> isDeadDealloc M1 I \<or> isDeadAlloc M2 I)"
proof -
  define M1 where "M1 = M\<lparr>getInstrs := filter (\<lambda>I. \<not> isDeadTensorView M I) (getInstrs M)\<rparr>"
  define M2 where "M2 = M1\<lparr>getInstrs := filter (\<lambda>I. \<not> isDeadDealloc M1 I) (getInstrs M1)\<rparr>"
  define M3 where "M3 = M2\<lparr>getInstrs := filter (\<lambda>I. \<not> isDeadAlloc M2 I) (getInstrs M2)\<rparr>"
  have e1: "erasePass isDeadTensorView M = M1"
    unfolding M1_def by (rule erasePass_filter [OF d])
  have d1: "distinct (map asValue (getInstrs M1))"
    using d by (simp add: M1_def distinct_map_filter)
  have e2: "erasePass isDeadDealloc M1 = M2"
    unfolding M2_def by (rule erasePass_filter [OF d1])
  have d2: "distinct (map asValue (getInstrs M2))"
    using d1 by (simp add: M2_def distinct_map_filter)
  have e3: "erasePass isDeadAlloc M2 = M3"
    unfolding M3_def by (rule erasePass_filter [OF d2])
  have no: "\<not> (\<exists>I \<in> set (getInstrs M1). isa DeallocActivationInstKind I \<and> getAlloc I = None)"
    using ops by (auto simp: M1_def getAlloc_def split: list.splits)
  have r: "deleteDeadAllocs M = Inr M3"
    using no by (simp add: deleteDeadAllocs_def e1 e2 e3 Let_def)
  have w: "getWeights M3 = getWeights M" by (simp add: M3_def M2_def M1_def)
  have k: "\<forall>I \<in> set (getInstrs M). I \<in> set (getInstrs M3) \<or>
               isDeadTensorView M I \<or> isDeadDealloc M1 I \<or> isDeadAlloc M2 I"
    by (auto simp: M3_def M2_def M1_def)
  from r w k M1_def M2_def M3_def show ?thesis by blast
qed

lemma distinct_deadBuffer: "distinct (map asValue (getInstrs deadBuffer))"
  by code_simp

lemma operands_deadBuffer:
  "\<forall>I \<in> set (getInstrs deadBuffer). isa DeallocActivationInstKind I \<longrightarrow> getOperands I \<noteq> []"
  by code_simp

lemma deleteDeadAllocs_deadBuffer:
  "deleteDeadAllocs deadBuffer = Inr \<lparr>getInstrs = [allocOf bufA, splatA, deallocA], getWeights = []\<rparr>"
  by code_simp

theorem deleteDeadAllocs_three_passes_witness:
  "distinct (map asValue (getInstrs deadBuffer))
   \<and> list_all (\<lambda>I. getOperands I \<noteq> []) (filter (isa DeallocActivationInstKind) (getInstrs deadBuffer))
   \<and> deleteDeadAllocs deadBuffer = Inr \<lparr>getInstrs = [allocOf bufA, splatA, deallocA], getWeights = []\<rparr>
   \<and> (\<exists>M3. deleteDeadAllocs deadBuffer = Inr M3 \<and> getWeights M3 = getWeights deadBuffer)"
proof -
  from deleteDeadAllocs_three_passes [OF distinct_deadBuffer operands_deadBuffer]
  have "\<exists>M3. deleteDeadAllocs deadBuffer = Inr M3 \<and> getWeights M3 = getWeights deadBuffer"
    by blast
  moreover have "list_all (\<lambda>I. getOperands I \<noteq> [])
                   (filter (isa DeallocActivationInstKind) (getInstrs deadBuffer))"
    using operands_deadBuffer by (simp add: list_all_iff)
  ultimately show ?thesis
    using distinct_deadBuffer deleteDeadAllocs_deadBuffer by (intro conjI)
qed

subsection \<open>The empty stream\<close>

lemma ValueUses_empty: "getInstrs M = [] \<Longrightarrow> ValueUses M v = []"
  by (simp add: ValueUses_def)

lemma verify_empty: "getInstrs M = [] \<Longrightarrow> verify M"
  by (simp add: verify_def isReadOnly_def ValueUses_empty list_all_iff)

lemma peephole_empty: "getInstrs M = [] \<Longrightarrow> performPeepholeOptimizations M = Inr M"
  by (simp add: performPeepholeOptimizations_def)

lemma shareBuffers_empty: "getInstrs M = [] \<Longrightarrow> shareBuffers inplace M = Inr M"
  by (simp add: shareBuffers_def)

lemma deleteDeadAllocs_empty: "getInstrs M = [] \<Longrightarrow> deleteDeadAllocs M = Inr M"
  by (simp add: deleteDeadAllocs_def erasePass_def)

lemma hoistDealloc_empty: "getInstrs M = [] \<Longrightarrow> hoistDealloc M = Inr M"
  by (simp add: hoistDealloc_def beginOf_def)

lemma sinkAllocas_empty: "getInstrs M = [] \<Longrightarrow> sinkAllocas M = Inr M"
  by (simp add: sinkAllocas_def)

lemma makeWeightsConst_empty:
  "getInstrs M = [] \<Longrightarrow>
   makeWeightsConst M = M\<lparr>getWeights := map (\<lambda>W. W\<lparr>getMutability := Constant\<rparr>) (getWeights M)\<rparr>"
  by (simp add: makeWeightsConst_def isReadOnly_def ValueUses_empty)

lemma copyPropagation_empty: "getInstrs M = [] \<Longrightarrow> copyPropagation M = Inr M"
  by (simp add: copyPropagation_def calculateLiveIntervals_def eraseInstructions_def)

lemma eliminateDeadStores_empty:
  "getInstrs M = [] \<Longrightarrow>
   eliminateDeadStores M = (if getWeights M = [] then Inr M else Inl UndefinedBehavior)"
  by (simp add: eliminateDeadStores_def eraseInstructions_def)

lemma instrumentation_empty: "getInstrs M = [] \<Longrightarrow> performDebugInstrumentation opts M = M"
  by (simp add: performDebugInstrumentation_def)

lemma optimizePasses_empty:
  assumes "getInstrs M = []" "getWeights M = []"
  shows "optimizePasses inplace opts M = Inr M"
proof -
  from assms have "makeWeightsConst M = M"
    by (simp add: makeWeightsConst_empty)
  with assms show ?thesis
    by (simp add: optimizePasses_def andThen_def peephole_empty shareBuffers_empty
          deleteDeadAllocs_empty hoistDealloc_empty sinkAllocas_empty copyPropagation_empty
          eliminateDeadStores_empty instrumentation_empty)
qed

text \<open>
  C7, as the code has it. On a module whose stream is empty the check of \<open>verify\<close>
  passes, and every pass up to copy propagation, and the debug instrumentation, returns
  without error and leaves the stream empty; \<open>makeWeightsConst\<close> marks every weight
  constant and changes nothing else. When the module has no weight either, dead store
  elimination returns the module as well and \<open>optimize\<close> as a whole is a no-op:
  it returns the module unchanged.
\<close>

theorem optimize_empty_stream:
  assumes e: "getInstrs M = []"
  shows "verify M
       \<and> performPeepholeOptimizations M = Inr M
       \<and> shareBuffers inplace M = Inr M
       \<and> deleteDeadAllocs M = Inr M
       \<and> hoistDealloc M = Inr M
       \<and> sinkAllocas M = Inr M
       \<and> makeWeightsConst M = M\<lparr>getWeights := map (\<lambda>W. W\<lparr>getMutability := Constant\<rparr>) (getWeights M)\<rparr>
       \<and> copyPropagation M = Inr M
       \<and> performDebugInstrumentation opts M = M
       \<and> (getWeights M = [] \<longrightarrow>
            eliminateDeadStores M = Inr M \<and> optimize inplace opts M mode = Inr M)"
proof -
  have "optimize inplace opts M mode = Inr M" if w: "getWeights M = []"
    using optimizePasses_empty [OF e w] verify_empty [OF e]
    by (simp add: optimize_def andThen_def verified_def)
  then show ?thesis
    using e by (simp add: verify_empty peephole_empty shareBuffers_empty deleteDeadAllocs_empty
         hoistDealloc_empty sinkAllocas_empty makeWeightsConst_empty copyPropagation_empty
         instrumentation_empty eliminateDeadStores_empty)
qed

theorem optimize_empty_stream_witness:
  "getInstrs \<lparr>getInstrs = [], getWeights = []\<rparr> = []
   \<and> getWeights \<lparr>getInstrs = [], getWeights = []\<rparr> = []
   \<and> verify \<lparr>getInstrs = [], getWeights = []\<rparr>
   \<and> optimize noInplace defaultOptions \<lparr>getInstrs = [], getWeights = []\<rparr> Train
        = Inr \<lparr>getInstrs = [], getWeights = []\<rparr>"
  using optimize_empty_stream [of "\<lparr>getInstrs = [], getWeights = []\<rparr>" noInplace defaultOptions Train]
  by simp

text \<open>
  C7, as the spec states it, fails on the module of one mutable weight and no
  instruction: \<open>makeWeightsConst\<close> changes the module (the weight becomes constant), and
  \<open>eliminateDeadStores\<close> then reads the last instruction of the empty stream for the
  fake last read of the weight, which is undefined behaviour; \<open>optimize\<close> does not
  return a module.
\<close>

theorem optimize_empty_stream_counterexample:
  "getInstrs onlyWeight = []
   \<and> makeWeightsConst onlyWeight = \<lparr>getInstrs = [], getWeights = [weightW\<lparr>getMutability := Constant\<rparr>]\<rparr>
   \<and> makeWeightsConst onlyWeight \<noteq> onlyWeight
   \<and> eliminateDeadStores onlyWeight = Inl UndefinedBehavior
   \<and> optimize noInplace defaultOptions onlyWeight Train = Inl UndefinedBehavior"
  by code_simp

subsection \<open>Running the optimizer twice\<close>


text \<open>
  The table \<open>inplace\<close> plays no part in this: the stream has no pair of operands that
  any table lets \<open>shareBuffers\<close> rewrite.
\<close>

lemma tryToShare_unsharable:
  assumes u: "unsharable M I" and l: "set (map weightValue (getWeights M)) \<subseteq> live"
  shows "tryToShareBuffersForInstr inplace live M I = Inr M"
proof -
  have "\<not> canShare inplace live M I p" if "p \<in> set (operandPairs (getNumOperands I))" for p
    using u l that unfolding unsharable_def canShare_def Let_def list_all_iff by blast
  then have "find (canShare inplace live M I) (operandPairs (getNumOperands I)) = None"
    by (simp add: find_None_iff)
  then show ?thesis by (simp add: tryToShareBuffersForInstr_def)
qed

lemma shareWalk_unsharable:
  assumes u: "list_all (unsharable M) (getInstrs M)"
  shows "k \<le> length (getInstrs M) \<Longrightarrow> \<exists>live. shareWalk inplace M k = Inr (M, live)"
proof (induction k)
  case 0
  then show ?case by simp
next
  case (Suc k)
  then obtain live where w: "shareWalk inplace M k = Inr (M, live)" by auto
  from shareWalk_keeps [OF w] have l: "set (map weightValue (getWeights M)) \<subseteq> live" by simp
  have pos: "length (getInstrs M) - Suc k < length (getInstrs M)" using Suc.prems by simp
  with u have "unsharable M (getInstrs M ! (length (getInstrs M) - Suc k))"
    by (simp add: list_all_length)
  moreover have "set (map weightValue (getWeights M))
      \<subseteq> fst (killOperands M (getOperands (getInstrs M ! (length (getInstrs M) - Suc k))) (live, {}))"
    using l by (auto intro!: killOperands_keeps)
  ultimately have "tryToShareBuffersForInstr inplace
      (fst (killOperands M (getOperands (getInstrs M ! (length (getInstrs M) - Suc k))) (live, {})))
      M (getInstrs M ! (length (getInstrs M) - Suc k)) = Inr M"
    by (rule tryToShare_unsharable)
  then have "\<exists>live'. shareStep inplace (length (getInstrs M) - Suc k) (M, live) = Inr (M, live')"
    by (simp add: shareStep_def Let_def)
  with w Suc.prems show ?case by auto
qed

lemma shareBuffers_unsharable:
  "list_all (unsharable M) (getInstrs M) \<Longrightarrow> shareBuffers inplace M = Inr M"
  using shareWalk_unsharable [of M "length (getInstrs M)" inplace]
  by (auto simp: shareBuffers_def)

lemma optimize_table_irrelevant:
  assumes "performPeepholeOptimizations M = Inr M'" and "list_all (unsharable M') (getInstrs M')"
  shows "optimize inplace opts M mode = optimize noInplace opts M mode"
  using assms shareBuffers_unsharable [OF assms(2)]
  by (simp add: optimize_def optimizePasses_def andThen_def)

lemma peephole_twoBuffers:
  "performPeepholeOptimizations twoBuffers = Inr twoBuffers
   \<and> list_all (unsharable twoBuffers) (getInstrs twoBuffers)
   \<and> performPeepholeOptimizations twoBuffersOnce = Inr twoBuffersOnce
   \<and> list_all (unsharable twoBuffersOnce) (getInstrs twoBuffersOnce)
   \<and> optimize noInplace defaultOptions twoBuffers Train = Inr twoBuffersOnce
   \<and> optimize noInplace defaultOptions twoBuffersOnce Train = Inr twoBuffersTwice"
  by code_simp

lemma optimize_twoBuffers_any_table:
  "optimize inplace defaultOptions twoBuffers Train = Inr twoBuffersOnce
   \<and> optimize inplace defaultOptions twoBuffersOnce Train = Inr twoBuffersTwice"
  using peephole_twoBuffers
    optimize_table_irrelevant [of twoBuffers twoBuffers inplace defaultOptions Train]
    optimize_table_irrelevant [of twoBuffersOnce twoBuffersOnce inplace defaultOptions Train]
  by simp




subsection \<open>Copy propagation between two allocations\<close>

lemma replaceAllUsesWith_nth:
  assumes "j < length (getInstrs M)"
  shows "getInstrs (fst (replaceAllUsesWith val w I M)) ! j = replaceUses val w I (j, getInstrs M ! j)"
  using assms by (simp add: replaceAllUsesWith_def Let_def)

lemma replaceAllUsesWith_frame:
  "length (getInstrs (fst (replaceAllUsesWith val w I M))) = length (getInstrs M)
   \<and> getWeights (fst (replaceAllUsesWith val w I M)) = getWeights M"
  by (simp add: replaceAllUsesWith_def Let_def)

lemma replaceUses_operand:
  assumes "k < length (getOperands J)"
  shows "getOperands (replaceUses val w I (j, J)) ! k =
           (if fst I \<le> j \<and> j \<le> snd I \<and> fst (getOperands J ! k) = val
               \<and> \<not> (j = fst I \<and> snd (getOperands J ! k) \<noteq> Out)
            then (w, snd (getOperands J ! k)) else getOperands J ! k)"
  using assms by (auto simp: replaceUses_def isReplaced_def)

lemma replaceUses_frame:
  "asValue (replaceUses val w I p) = asValue (snd p)
   \<and> attrs (replaceUses val w I p) = attrs (snd p)
   \<and> length (getOperands (replaceUses val w I p)) = length (getOperands (snd p))"
  by (simp add: replaceUses_def)

lemma copyPropagationStep_erased:
  "copyPropagationStep L i s = Inr s' \<Longrightarrow> snd s \<subseteq> snd s'"
  by (auto simp: copyPropagationStep_def propagateFromWeight_def propagateIntoDest_def Let_def
           split: if_splits option.splits sum.splits prod.splits)

lemma copyPropagationLoop_erased:
  "copyPropagationLoop L idxs s = Inr s' \<Longrightarrow> snd s \<subseteq> snd s'"
proof (induction idxs arbitrary: s)
  case Nil
  then show ?case by simp
next
  case (Cons i idxs)
  from Cons.prems obtain s1 where 1: "copyPropagationStep L i s = Inr s1"
    and 2: "copyPropagationLoop L idxs s1 = Inr s'"
    by (auto split: sum.splits)
  from copyPropagationStep_erased [OF 1] Cons.IH [OF 2] show ?case by blast
qed

lemma eraseInstructions_gone:
  "v \<in> E \<Longrightarrow> v \<notin> asValue ` set (getInstrs (eraseInstructions M E))"
  by (auto simp: eraseInstructions_def)

lemma caseB_step:
  assumes copy: "isa CopyInstKind (getInstrs M ! instIdx)"
    and ops: "copyOperands (getInstrs M ! instIdx) = Some (Dest, Src)"
    and ty: "getType Src = getType Dest"
    and nw: "getKind Src \<noteq> WeightVarKind"
    and SI: "getEnclosingInterval (IntervalsMap Src) instIdx = Some SI"
    and DI: "getEnclosingInterval (IntervalsMap Dest) instIdx = Some DI"
  shows "copyPropagationStep IntervalsMap instIdx (M, E) =
           (if \<not> canPropagate SI DI then Inr (M, E)
            else propagateIntoDest instIdx (getInstrs M ! instIdx) Dest Src SI (M, E))"
proof -
  from SI have "IntervalsMap Src \<noteq> []" by (auto simp: getEnclosingInterval_def)
  moreover from DI have "IntervalsMap Dest \<noteq> []" by (auto simp: getEnclosingInterval_def)
  ultimately show ?thesis
    using copy ops ty nw SI DI by (simp add: copyPropagationStep_def Let_def)
qed

lemma enclosing_bounds:
  "getEnclosingInterval ivs i = Some I \<Longrightarrow> fst I \<le> i \<and> i \<le> snd I \<and> I \<in> set ivs"
  by (auto simp: getEnclosingInterval_def find_Some_iff)

lemma caseB_succeeds:
  assumes pos: "instIdx < length (getInstrs M)"
    and ops: "copyOperands (getInstrs M ! instIdx) = Some (Dest, Src)"
    and SI: "fst SI \<le> instIdx \<and> instIdx \<le> snd SI"
    and ne: "fst SI \<noteq> instIdx"
  shows "propagateIntoDest instIdx ci Dest Src SI (M, E)
           = Inr (fst (replaceAllUsesWith Src Dest SI M), insert (asValue ci) E)"
proof -
  define J where "J = getInstrs M ! instIdx"
  from ops obtain dst src rest where o: "getOperands J = dst # src # rest"
    and d: "fst dst = Dest" and s: "fst src = Src"
    by (auto simp: copyOperands_def J_def split: list.splits)
  have rep: "isReplaced Src SI instIdx src"
    using SI ne s by (auto simp: isReplaced_def)
  have "(instIdx, J) \<in> set (zip [0 ..< length (getInstrs M)] (getInstrs M))"
    using pos unfolding J_def by (auto simp: in_set_zip intro!: exI [of _ instIdx])
  moreover have "changedBy Src SI (instIdx, J) \<noteq> []"
    using rep o by (auto simp: changedBy_def filter_empty_conv)
  ultimately have ch: "snd (replaceAllUsesWith Src Dest SI M) \<noteq> []"
    by (force simp: replaceAllUsesWith_def Let_def)
  have "getOperands (getInstrs (fst (replaceAllUsesWith Src Dest SI M)) ! instIdx)
          = map (\<lambda>opd. if isReplaced Src SI instIdx opd then (Dest, snd opd) else opd) (dst # src # rest)"
    using o by (simp add: replaceAllUsesWith_nth [OF pos] replaceUses_def J_def)
  then have "copyOperands (getInstrs (fst (replaceAllUsesWith Src Dest SI M)) ! instIdx)
          = Some (Dest, Dest)"
    using rep d by (simp add: copyOperands_def)
  with ch show ?thesis by (simp add: propagateIntoDest_def Let_def)
qed

lemma copyPropagationLoop_append:
  "copyPropagationLoop L (xs @ ys) s =
     (case copyPropagationLoop L xs s of Inl e \<Rightarrow> Inl e | Inr s' \<Rightarrow> copyPropagationLoop L ys s')"
  by (induction xs arbitrary: s) (auto split: sum.splits)

lemma replaceAllNonDeallocUsersWith_frame:
  "replaceAllNonDeallocUsersWith M v w = Inr M' \<Longrightarrow>
     map asValue (getInstrs M') = map asValue (getInstrs M)"
  by (auto simp: replaceAllNonDeallocUsersWith_def replaceOperands_def Let_def comp_def split: if_splits)

lemma replaceAllUsesWith_values:
  "map asValue (getInstrs (fst (replaceAllUsesWith val w I M))) = map asValue (getInstrs M)"
  by (rule nth_equalityI) (simp_all add: replaceAllUsesWith_frame replaceAllUsesWith_nth replaceUses_frame)

lemma copyPropagationStep_values:
  "copyPropagationStep L i s = Inr s' \<Longrightarrow>
     map asValue (getInstrs (fst s')) = map asValue (getInstrs (fst s))"
  by (auto simp: copyPropagationStep_def propagateFromWeight_def propagateIntoDest_def Let_def
        replaceAllUsesWith_values replaceAllNonDeallocUsersWith_frame
      split: if_splits option.splits sum.splits prod.splits)

lemma copyPropagationLoop_values:
  "copyPropagationLoop L idxs s = Inr s' \<Longrightarrow>
     map asValue (getInstrs (fst s')) = map asValue (getInstrs (fst s))"
proof (induction idxs arbitrary: s)
  case Nil
  then show ?case by simp
next
  case (Cons i idxs)
  from Cons.prems obtain s1 where 1: "copyPropagationStep L i s = Inr s1"
    and 2: "copyPropagationLoop L idxs s1 = Inr s'"
    by (auto split: sum.splits)
  from copyPropagationStep_values [OF 1] Cons.IH [OF 2] show ?case by simp
qed

lemma copyPropagationStep_adds:
  "copyPropagationStep L i s = Inr s' \<Longrightarrow>
     snd s' \<subseteq> insert (asValue (getInstrs (fst s) ! i)) (snd s)"
  by (auto simp: copyPropagationStep_def propagateFromWeight_def propagateIntoDest_def Let_def
      split: if_splits option.splits sum.splits prod.splits)

lemma copyPropagationLoop_adds:
  assumes "copyPropagationLoop L idxs s = Inr s'"
    and "\<forall>j \<in> set idxs. j < length (getInstrs (fst s))"
  shows "snd s' \<subseteq> snd s \<union> (\<lambda>j. asValue (getInstrs (fst s) ! j)) ` set idxs"
  using assms
proof (induction idxs arbitrary: s)
  case Nil
  then show ?case by simp
next
  case (Cons i idxs)
  from Cons.prems obtain s1 where 1: "copyPropagationStep L i s = Inr s1"
    and 2: "copyPropagationLoop L idxs s1 = Inr s'"
    by (auto split: sum.splits)
  note v = copyPropagationStep_values [OF 1]
  from v have len: "length (getInstrs (fst s1)) = length (getInstrs (fst s))"
    by (rule map_eq_imp_length_eq)
  have nth: "asValue (getInstrs (fst s1) ! j) = asValue (getInstrs (fst s) ! j)"
    if "j < length (getInstrs (fst s))" for j
    using arg_cong [OF v, of "\<lambda>xs. xs ! j"] that len by simp
  from Cons.prems(2) len have b: "\<forall>j \<in> set idxs. j < length (getInstrs (fst s1))" by simp
  have "snd s' \<subseteq> snd s1 \<union> (\<lambda>j. asValue (getInstrs (fst s1) ! j)) ` set idxs"
    by (rule Cons.IH [OF 2 b])
  also have "(\<lambda>j. asValue (getInstrs (fst s1) ! j)) ` set idxs
               = (\<lambda>j. asValue (getInstrs (fst s) ! j)) ` set idxs"
    using Cons.prems(2) nth by (intro image_cong) auto
  finally show ?case using copyPropagationStep_adds [OF 1] by auto
qed

lemma eraseInstructions_kept:
  "J \<in> set (getInstrs M) \<Longrightarrow> asValue J \<notin> E \<Longrightarrow>
     asValue J \<in> asValue ` set (getInstrs (eraseInstructions M E))"
  by (auto simp: eraseInstructions_def)

lemma copyPropagationStep_other:
  "\<not> isa CopyInstKind (getInstrs (fst s) ! i) \<Longrightarrow> copyPropagationStep L i s = Inr s"
  by (simp add: copyPropagationStep_def)

lemma copyPropagation_split:
  assumes calc: "calculateLiveIntervals M = Inr L"
    and pos: "i < length (getInstrs M)"
    and reach: "copyPropagationLoop L [0 ..< Suc i] (M, {}) = Inr s1"
  shows "copyPropagation M =
           (case copyPropagationLoop L [Suc i ..< length (getInstrs M)] s1 of
              Inl e \<Rightarrow> Inl e
            | Inr s \<Rightarrow> Inr (eraseInstructions (fst s) (snd s)))"
proof -
  from pos have "[0 ..< length (getInstrs M)] = [0 ..< Suc i] @ [Suc i ..< length (getInstrs M)]"
    by (metis Suc_leI le0 upt_add_eq_append le_Suc_ex)
  then show ?thesis
    using calc reach by (simp add: copyPropagation_def copyPropagationLoop_append del: upt_Suc)
qed

lemma copyPropagation_failed:
  assumes calc: "calculateLiveIntervals M = Inr L"
    and pos: "i < length (getInstrs M)"
    and reach: "copyPropagationLoop L [0 ..< Suc i] (M, {}) = Inl e"
  shows "copyPropagation M = Inl e"
proof -
  from pos have "[0 ..< length (getInstrs M)] = [0 ..< Suc i] @ [Suc i ..< length (getInstrs M)]"
    by (metis Suc_leI le0 upt_add_eq_append le_Suc_ex)
  then show ?thesis
    using calc reach by (simp add: copyPropagation_def copyPropagationLoop_append del: upt_Suc)
qed

lemma copyPropagationLoop_snoc:
  "copyPropagationLoop L [0 ..< i] s0 = Inr s \<Longrightarrow>
     copyPropagationLoop L [0 ..< Suc i] s0 = copyPropagationStep L i s"
  by (simp add: copyPropagationLoop_append split: sum.splits)

text \<open>
  C3. Let \<open>copyPropagation\<close> run on \<open>M\<close> with the interval map that
  \<open>calculateLiveIntervals\<close> returns, and let its loop reach the instruction number
  \<open>instIdx\<close> with the module \<open>Mi\<close> and the erased set \<open>E\<close>. Let that instruction
  be a copy of \<open>Src\<close> into \<open>Dest\<close>, where \<open>Src\<close> is not a weight and the interval
  map has the intervals \<open>SI\<close> of \<open>Src\<close> and \<open>DI\<close> of \<open>Dest\<close> that enclose
  \<open>instIdx\<close> (Case B). When the condition \<open>fires\<close> of the spec does not hold, the
  iteration changes nothing. When it holds, the loop goes on with the module \<open>M'\<close> and
  the copy in the erased set, or the pass stops at one of the two assertions behind the
  rewrite; the loop goes on whenever the copy is not the instruction that opens \<open>SI\<close>.
  In \<open>M'\<close> every operand that points to \<open>Src\<close> in an instruction numbered from
  \<open>SI.begin\<close> to \<open>SI.end\<close> points to \<open>Dest\<close>, except the operands of the
  instruction \<open>SI.begin\<close> whose kind is not \<open>Out\<close>; nothing else is changed. When
  the pass returns, the copy is not in its result if the condition holds, and it is
  still there if the condition does not hold and the instructions are distinct.
\<close>

theorem copyPropagation_case_B:
  assumes calc: "calculateLiveIntervals M = Inr IntervalsMap"
    and pos: "instIdx < length (getInstrs M)"
    and reach: "copyPropagationLoop IntervalsMap [0 ..< instIdx] (M, {}) = Inr (Mi, E)"
    and copy: "isa CopyInstKind (getInstrs Mi ! instIdx)"
    and ops: "copyOperands (getInstrs Mi ! instIdx) = Some (Dest, Src)"
    and ty: "getType Src = getType Dest"
    and nw: "getKind Src \<noteq> WeightVarKind"
    and SI: "getEnclosingInterval (IntervalsMap Src) instIdx = Some SI"
    and DI: "getEnclosingInterval (IntervalsMap Dest) instIdx = Some DI"
    and M': "M' = fst (replaceAllUsesWith Src Dest SI Mi)"
    and E': "E' = insert (asValue (getInstrs M ! instIdx)) E"
  shows "asValue (getInstrs Mi ! instIdx) = asValue (getInstrs M ! instIdx)
       \<and> (\<not> fires SI DI \<longrightarrow>
            copyPropagationLoop IntervalsMap [0 ..< Suc instIdx] (M, {}) = Inr (Mi, E))
       \<and> (fires SI DI \<longrightarrow>
            copyPropagationLoop IntervalsMap [0 ..< Suc instIdx] (M, {}) = Inr (M', E')
          \<or> copyPropagation M = Inl AssertionFailed)
       \<and> (fires SI DI \<and> fst SI \<noteq> instIdx \<longrightarrow>
            copyPropagationLoop IntervalsMap [0 ..< Suc instIdx] (M, {}) = Inr (M', E'))
       \<and> getWeights M' = getWeights Mi
       \<and> length (getInstrs M') = length (getInstrs Mi)
       \<and> (\<forall>j < length (getInstrs Mi).
             asValue (getInstrs M' ! j) = asValue (getInstrs Mi ! j)
           \<and> attrs (getInstrs M' ! j) = attrs (getInstrs Mi ! j)
           \<and> length (getOperands (getInstrs M' ! j)) = length (getOperands (getInstrs Mi ! j))
           \<and> (\<forall>k < length (getOperands (getInstrs Mi ! j)).
                 getOperands (getInstrs M' ! j) ! k =
                   (if fst SI \<le> j \<and> j \<le> snd SI
                       \<and> fst (getOperands (getInstrs Mi ! j) ! k) = Src
                       \<and> \<not> (j = fst SI \<and> snd (getOperands (getInstrs Mi ! j) ! k) \<noteq> Out)
                    then (Dest, snd (getOperands (getInstrs Mi ! j) ! k))
                    else getOperands (getInstrs Mi ! j) ! k)))
       \<and> (\<forall>Mr. copyPropagation M = Inr Mr \<longrightarrow>
             (fires SI DI \<longrightarrow> asValue (getInstrs M ! instIdx) \<notin> asValue ` set (getInstrs Mr))
           \<and> (\<not> fires SI DI \<and> distinct (map asValue (getInstrs M)) \<longrightarrow>
                asValue (getInstrs M ! instIdx) \<in> asValue ` set (getInstrs Mr)))"
proof -
  let ?n = "length (getInstrs M)"
  let ?c = "asValue (getInstrs M ! instIdx)"
  note vals = copyPropagationLoop_values [OF reach, simplified]
  from vals have len: "length (getInstrs Mi) = ?n" by (rule map_eq_imp_length_eq)
  have same: "asValue (getInstrs Mi ! instIdx) = ?c"
    using arg_cong [OF vals, of "\<lambda>xs. xs ! instIdx"] pos len by simp
  note snoc = copyPropagationLoop_snoc [OF reach]
  note step = caseB_step [OF copy ops ty nw SI DI, of E]
  have f: "fires SI DI = canPropagate SI DI"
    by (simp add: fires_def canPropagate_def isEnclosedInside_def)
  have 1: "\<not> fires SI DI \<longrightarrow>
             copyPropagationLoop IntervalsMap [0 ..< Suc instIdx] (M, {}) = Inr (Mi, E)"
    unfolding snoc by (simp add: step f)
  have 2: "fires SI DI \<longrightarrow>
            copyPropagationLoop IntervalsMap [0 ..< Suc instIdx] (M, {}) = Inr (M', E')
          \<or> copyPropagationLoop IntervalsMap [0 ..< Suc instIdx] (M, {}) = Inl AssertionFailed"
    unfolding snoc
    by (auto simp: step f propagateIntoDest_def Let_def M' E' same split: option.splits)
  have asrt: "fires SI DI \<longrightarrow>
            copyPropagationLoop IntervalsMap [0 ..< Suc instIdx] (M, {}) = Inr (M', E')
          \<or> copyPropagation M = Inl AssertionFailed"
    using 2 copyPropagation_failed [OF calc pos] by blast
  have 3: "fires SI DI \<and> fst SI \<noteq> instIdx \<longrightarrow>
            copyPropagationLoop IntervalsMap [0 ..< Suc instIdx] (M, {}) = Inr (M', E')"
    unfolding snoc
    using enclosing_bounds [OF SI] pos len
      caseB_succeeds [OF _ ops, of SI "getInstrs Mi ! instIdx" E]
    by (auto simp: step f M' E' same)
  have a: "getWeights M' = getWeights Mi" "length (getInstrs M') = length (getInstrs Mi)"
    by (simp_all add: M' replaceAllUsesWith_frame)
  have b: "asValue (getInstrs M' ! j) = asValue (getInstrs Mi ! j)
           \<and> attrs (getInstrs M' ! j) = attrs (getInstrs Mi ! j)
           \<and> length (getOperands (getInstrs M' ! j)) = length (getOperands (getInstrs Mi ! j))
           \<and> (\<forall>k < length (getOperands (getInstrs Mi ! j)).
                 getOperands (getInstrs M' ! j) ! k =
                   (if fst SI \<le> j \<and> j \<le> snd SI
                       \<and> fst (getOperands (getInstrs Mi ! j) ! k) = Src
                       \<and> \<not> (j = fst SI \<and> snd (getOperands (getInstrs Mi ! j) ! k) \<noteq> Out)
                    then (Dest, snd (getOperands (getInstrs Mi ! j) ! k))
                    else getOperands (getInstrs Mi ! j) ! k))"
    if j: "j < length (getInstrs Mi)" for j
    unfolding M' replaceAllUsesWith_nth [OF j]
    using replaceUses_frame [of Src Dest SI "(j, getInstrs Mi ! j)"]
    by (simp add: replaceUses_operand)
  have c: "(fires SI DI \<longrightarrow> ?c \<notin> asValue ` set (getInstrs Mr))
         \<and> (\<not> fires SI DI \<and> distinct (map asValue (getInstrs M)) \<longrightarrow>
              ?c \<in> asValue ` set (getInstrs Mr))"
    if res: "copyPropagation M = Inr Mr" for Mr
  proof (cases "fires SI DI")
    case True
    with asrt res have s1: "copyPropagationLoop IntervalsMap [0 ..< Suc instIdx] (M, {}) = Inr (M', E')"
      by auto
    from res copyPropagation_split [OF calc pos s1]
    obtain s where s: "copyPropagationLoop IntervalsMap [Suc instIdx ..< ?n] (M', E') = Inr s"
      and Mr: "Mr = eraseInstructions (fst s) (snd s)"
      by (auto split: sum.splits)
    from copyPropagationLoop_erased [OF s] E' have "?c \<in> snd s" by auto
    then have "?c \<notin> asValue ` set (getInstrs Mr)" unfolding Mr by (rule eraseInstructions_gone)
    with True show ?thesis by simp
  next
    case False
    with 1 have s1: "copyPropagationLoop IntervalsMap [0 ..< Suc instIdx] (M, {}) = Inr (Mi, E)"
      by simp
    from res copyPropagation_split [OF calc pos s1]
    obtain s where s: "copyPropagationLoop IntervalsMap [Suc instIdx ..< ?n] (Mi, E) = Inr s"
      and Mr: "Mr = eraseInstructions (fst s) (snd s)"
      by (auto split: sum.splits)
    have "?c \<in> asValue ` set (getInstrs Mr)" if dist: "distinct (map asValue (getInstrs M))"
    proof -
      have nthM: "asValue (getInstrs M ! j) \<noteq> ?c" if "j < ?n" "j \<noteq> instIdx" for j
        using dist that pos by (simp add: distinct_conv_nth)
      have E: "E \<subseteq> (\<lambda>j. asValue (getInstrs M ! j)) ` set [0 ..< instIdx]"
        using copyPropagationLoop_adds [OF reach] pos by simp
      have notE: "?c \<notin> E"
      proof
        assume "?c \<in> E"
        with E obtain j where "j < instIdx" "asValue (getInstrs M ! j) = ?c" by auto
        with nthM [of j] pos show False by simp
      qed
      have nthMi: "asValue (getInstrs Mi ! j) = asValue (getInstrs M ! j)" if "j < ?n" for j
        using arg_cong [OF vals, of "\<lambda>xs. xs ! j"] that len by simp
      have "snd s \<subseteq> E \<union> (\<lambda>j. asValue (getInstrs Mi ! j)) ` set [Suc instIdx ..< ?n]"
        using copyPropagationLoop_adds [OF s] len by simp
      moreover have "?c \<notin> (\<lambda>j. asValue (getInstrs Mi ! j)) ` set [Suc instIdx ..< ?n]"
      proof
        assume "?c \<in> (\<lambda>j. asValue (getInstrs Mi ! j)) ` set [Suc instIdx ..< ?n]"
        then obtain j where "Suc instIdx \<le> j" "j < ?n" "asValue (getInstrs Mi ! j) = ?c" by auto
        with nthM [of j] nthMi [of j] show False by simp
      qed
      ultimately have out: "?c \<notin> snd s" using notE by blast
      note vs = copyPropagationLoop_values [OF s, simplified]
      from vs have ls: "length (getInstrs (fst s)) = ?n" using len
        by (metis map_eq_imp_length_eq)
      have "asValue (getInstrs (fst s) ! instIdx) = ?c"
        using arg_cong [OF vs, of "\<lambda>xs. xs ! instIdx"] pos len ls same by simp
      moreover have "getInstrs (fst s) ! instIdx \<in> set (getInstrs (fst s))"
        using pos ls by simp
      ultimately show ?thesis
        unfolding Mr using eraseInstructions_kept [of "getInstrs (fst s) ! instIdx" "fst s" "snd s"] out
        by simp
    qed
    with False show ?thesis by simp
  qed
  from same 1 asrt 3 a b c show ?thesis by blast
qed


lemma copyChain_calc:
  "map_sum id (\<lambda>L. (L bufA, L bufC)) (calculateLiveIntervals copyChain)
     = Inr ([(2, 3)], [(3, 4)])"
  by code_simp

lemma copyChain_facts:
  "\<not> isa CopyInstKind (getInstrs copyChain ! 0)
   \<and> \<not> isa CopyInstKind (getInstrs copyChain ! 1)
   \<and> \<not> isa CopyInstKind (getInstrs copyChain ! 2)
   \<and> isa CopyInstKind (getInstrs copyChain ! 3)
   \<and> copyOperands (getInstrs copyChain ! 3) = Some (bufC, bufA)
   \<and> getType bufA = getType bufC
   \<and> getKind bufA \<noteq> WeightVarKind
   \<and> getEnclosingInterval [(2, 3)] 3 = Some (2, 3)
   \<and> getEnclosingInterval [(3, 4)] 3 = Some (3, 4)
   \<and> fires (2, 3) (3, 4)
   \<and> 3 < length (getInstrs copyChain)
   \<and> fst (2::nat, 3::nat) \<noteq> 3
   \<and> fst (replaceAllUsesWith bufA bufC (2, 3) copyChain)
       = \<lparr>getInstrs = [allocOf bufA, allocOf bufC, instr SplatInstKind 3 ''s1'' [(bufC, Out)],
                        instr CopyInstKind 12 ''cp'' [(bufC, Out), (bufC, In)], opWC, deallocA, deallocC],
           getWeights = [weightW]\<rparr>
   \<and> asValue (getInstrs copyChain ! 3) = asValue copyCA"
  by code_simp

lemma copyChain_propagated:
  "copyPropagation copyChain
     = Inr \<lparr>getInstrs = [allocOf bufA, allocOf bufC, instr SplatInstKind 3 ''s1'' [(bufC, Out)],
                         opWC, deallocA, deallocC],
            getWeights = [weightW]\<rparr>"
  by code_simp

theorem copyPropagation_case_B_witness:
  "(\<exists>L. calculateLiveIntervals copyChain = Inr L
        \<and> copyPropagationLoop L [0 ..< 3] (copyChain, {}) = Inr (copyChain, {})
        \<and> getEnclosingInterval (L bufA) 3 = Some (2, 3)
        \<and> getEnclosingInterval (L bufC) 3 = Some (3, 4)
        \<and> copyPropagationLoop L [0 ..< Suc 3] (copyChain, {})
            = Inr (\<lparr>getInstrs = [allocOf bufA, allocOf bufC,
                                  instr SplatInstKind 3 ''s1'' [(bufC, Out)],
                                  instr CopyInstKind 12 ''cp'' [(bufC, Out), (bufC, In)],
                                  opWC, deallocA, deallocC],
                     getWeights = [weightW]\<rparr>,
                   {asValue copyCA}))
   \<and> 3 < length (getInstrs copyChain)
   \<and> isa CopyInstKind (getInstrs copyChain ! 3)
   \<and> copyOperands (getInstrs copyChain ! 3) = Some (bufC, bufA)
   \<and> getType bufA = getType bufC
   \<and> getKind bufA \<noteq> WeightVarKind
   \<and> fires (2, 3) (3, 4)
   \<and> asValue copyCA \<notin> asValue ` set (getInstrs
        \<lparr>getInstrs = [allocOf bufA, allocOf bufC, instr SplatInstKind 3 ''s1'' [(bufC, Out)],
                      opWC, deallocA, deallocC],
         getWeights = [weightW]\<rparr>)
   \<and> copyPropagation copyChain
        = Inr \<lparr>getInstrs = [allocOf bufA, allocOf bufC, instr SplatInstKind 3 ''s1'' [(bufC, Out)],
                            opWC, deallocA, deallocC],
               getWeights = [weightW]\<rparr>"
proof -
  have h: "\<not> isa CopyInstKind (getInstrs copyChain ! 0)"
    "\<not> isa CopyInstKind (getInstrs copyChain ! 1)"
    "\<not> isa CopyInstKind (getInstrs copyChain ! 2)"
    "isa CopyInstKind (getInstrs copyChain ! 3)"
    "copyOperands (getInstrs copyChain ! 3) = Some (bufC, bufA)"
    "getType bufA = getType bufC"
    "getKind bufA \<noteq> WeightVarKind"
    "getEnclosingInterval [(2, 3)] 3 = Some (2, 3)"
    "getEnclosingInterval [(3, 4)] 3 = Some (3, 4)"
    "fires (2, 3) (3, 4)"
    "3 < length (getInstrs copyChain)"
    "fst (2::nat, 3::nat) \<noteq> 3"
    "fst (replaceAllUsesWith bufA bufC (2, 3) copyChain)
       = \<lparr>getInstrs = [allocOf bufA, allocOf bufC, instr SplatInstKind 3 ''s1'' [(bufC, Out)],
                        instr CopyInstKind 12 ''cp'' [(bufC, Out), (bufC, In)], opWC, deallocA, deallocC],
           getWeights = [weightW]\<rparr>"
    "asValue (getInstrs copyChain ! 3) = asValue copyCA"
    using copyChain_facts by blast+
  from copyChain_calc obtain L where calc: "calculateLiveIntervals copyChain = Inr L"
    and LA: "L bufA = [(2, 3)]" and LC: "L bufC = [(3, 4)]"
    by (cases "calculateLiveIntervals copyChain") auto
  have upt: "[0 ..< 3] = [0, 1, 2::nat]" by code_simp
  have reach: "copyPropagationLoop L [0 ..< 3] (copyChain, {}) = Inr (copyChain, {})"
    unfolding upt using h(1-3) by (simp add: copyPropagationStep_other)
  have SI: "getEnclosingInterval (L bufA) 3 = Some (2, 3)" using h(8) LA by simp
  have DI: "getEnclosingInterval (L bufC) 3 = Some (3, 4)" using h(9) LC by simp
  note cb = copyPropagation_case_B [OF calc h(11) reach h(4) h(5) h(6) h(7) SI DI refl refl]
  from cb h(10) h(12)
  have step: "copyPropagationLoop L [0 ..< Suc 3] (copyChain, {})
          = Inr (fst (replaceAllUsesWith bufA bufC (2, 3) copyChain),
                 insert (asValue (getInstrs copyChain ! 3)) {})"
    by blast
  from cb h(10) copyChain_propagated
  have gone: "asValue (getInstrs copyChain ! 3) \<notin> asValue ` set (getInstrs
        \<lparr>getInstrs = [allocOf bufA, allocOf bufC, instr SplatInstKind 3 ''s1'' [(bufC, Out)],
                      opWC, deallocA, deallocC],
         getWeights = [weightW]\<rparr>)"
    by blast
  have body: "calculateLiveIntervals copyChain = Inr L
        \<and> copyPropagationLoop L [0 ..< 3] (copyChain, {}) = Inr (copyChain, {})
        \<and> getEnclosingInterval (L bufA) 3 = Some (2, 3)
        \<and> getEnclosingInterval (L bufC) 3 = Some (3, 4)
        \<and> copyPropagationLoop L [0 ..< Suc 3] (copyChain, {})
            = Inr (\<lparr>getInstrs = [allocOf bufA, allocOf bufC,
                                  instr SplatInstKind 3 ''s1'' [(bufC, Out)],
                                  instr CopyInstKind 12 ''cp'' [(bufC, Out), (bufC, In)],
                                  opWC, deallocA, deallocC],
                     getWeights = [weightW]\<rparr>,
                   {asValue copyCA})"
    using calc reach SI DI step h(13) h(14) by simp
  have ex: "\<exists>L. calculateLiveIntervals copyChain = Inr L
        \<and> copyPropagationLoop L [0 ..< 3] (copyChain, {}) = Inr (copyChain, {})
        \<and> getEnclosingInterval (L bufA) 3 = Some (2, 3)
        \<and> getEnclosingInterval (L bufC) 3 = Some (3, 4)
        \<and> copyPropagationLoop L [0 ..< Suc 3] (copyChain, {})
            = Inr (\<lparr>getInstrs = [allocOf bufA, allocOf bufC,
                                  instr SplatInstKind 3 ''s1'' [(bufC, Out)],
                                  instr CopyInstKind 12 ''cp'' [(bufC, Out), (bufC, In)],
                                  opWC, deallocA, deallocC],
                     getWeights = [weightW]\<rparr>,
                   {asValue copyCA})"
    by (rule exI [of _ L]) (fact body)
  from gone h(14) have gone': "asValue copyCA \<notin> asValue ` set (getInstrs
        \<lparr>getInstrs = [allocOf bufA, allocOf bufC, instr SplatInstKind 3 ''s1'' [(bufC, Out)],
                      opWC, deallocA, deallocC],
         getWeights = [weightW]\<rparr>)"
    by simp
  show ?thesis
    apply (rule conjI [OF ex])
    apply (rule conjI [OF h(11)])
    apply (rule conjI [OF h(4)])
    apply (rule conjI [OF h(5)])
    apply (rule conjI [OF h(6)])
    apply (rule conjI [OF h(7)])
    apply (rule conjI [OF h(10)])
    apply (rule conjI [OF gone'])
    apply (rule copyChain_propagated)
    done
qed

subsection \<open>Hoisting deallocations\<close>

text \<open>
  C5, as the spec states it, fails. In \<open>twoBuffers\<close> the last instruction that uses
  \<open>A\<close> is \<open>op(W, A, B)\<close> at position 4, and the dealloc of \<open>A\<close> stands immediately
  after it. \<open>hoistDealloc\<close> leaves the dealloc of \<open>A\<close> at position 6: the dealloc of
  \<open>B\<close>, whose allocation has the same last user, is moved between the two.
\<close>

theorem hoistDealloc_not_adjacent_counterexample:
  "hoistDealloc twoBuffers
     = Inr \<lparr>getInstrs = [allocOf bufA, allocOf bufB, splatA, splatB, opWAB, deallocB, deallocA],
            getWeights = [weightW]\<rparr>
   \<and> getInstrs twoBuffers ! 4 = opWAB
   \<and> getInstrs twoBuffers ! 5 = deallocA
   \<and> target twoBuffers deallocA = Some (asValue opWAB)
   \<and> find (usesAllocation twoBuffers bufA) (rev (getInstrs twoBuffers)) = Some opWAB
   \<and> deallocB \<noteq> deallocA"
  by code_simp

text \<open>The loop of \<open>hoistDealloc\<close> on a stream of distinct instructions.\<close>

lemma find_distinct:
  assumes "distinct (map asValue l)" "I \<in> set l"
  shows "find (\<lambda>J. asValue J = asValue I) l = Some I"
  using assms
proof (induction l)
  case Nil
  then show ?case by simp
next
  case (Cons a l)
  then show ?case by (auto simp: image_iff)
qed

lemma find_same_set:
  assumes d1: "distinct (map asValue l1)" and d2: "distinct (map asValue l2)" and s: "set l1 = set l2"
  shows "find (\<lambda>J. asValue J = v) l1 = find (\<lambda>J. asValue J = v) l2"
proof (cases "\<exists>I \<in> set l1. asValue I = v")
  case True
  then obtain I where I: "I \<in> set l1" "asValue I = v" by auto
  from find_distinct [OF d1 I(1)] find_distinct [OF d2, of I] I s show ?thesis by simp
next
  case False
  then have "find (\<lambda>J. asValue J = v) l1 = None" by (auto simp: find_None_iff)
  moreover from False s have "find (\<lambda>J. asValue J = v) l2 = None" by (auto simp: find_None_iff)
  ultimately show ?thesis by simp
qed

lemma getOrigin_same_set:
  assumes d1: "distinct (map asValue (getInstrs M1))" and d2: "distinct (map asValue (getInstrs M2))"
    and s: "set (getInstrs M1) = set (getInstrs M2)"
    and len: "length (getInstrs M1) = length (getInstrs M2)"
  shows "getOrigin M1 v = getOrigin M2 v"
proof -
  have vs: "viewSource M1 u = viewSource M2 u" for u
    using find_same_set [OF d1 d2 s, of u] by (simp add: viewSource_def lookupInstr_def)
  have "originWalk n M1 u = originWalk n M2 u" for n u
    by (induction n arbitrary: u) (auto simp: vs split: option.splits)
  then show ?thesis by (simp add: getOrigin_def len)
qed

lemma distinct_asValue_append:
  assumes d: "distinct (map asValue (xs @ ys))" and J: "J \<in> set xs" and K: "K \<in> set ys"
  shows "asValue J \<noteq> asValue K"
proof
  assume eq: "asValue J = asValue K"
  from d have "set (map asValue xs) \<inter> set (map asValue ys) = {}" by simp
  moreover from J have "asValue J \<in> set (map asValue xs)" by simp
  moreover from K eq have "asValue J \<in> set (map asValue ys)" by simp
  ultimately show False by blast
qed

lemma lookup_mid:
  assumes "distinct (map asValue (pre @ d # suf))"
  shows "lookupInstr (mkModule ws (pre @ d # suf)) (asValue d) = Some d"
  using find_distinct [OF assms, of d] by (simp add: lookupInstr_def mkModule_def)

lemma dropWhile_mid:
  assumes "distinct (map asValue (pre @ d # suf))"
  shows "dropWhile (\<lambda>J. asValue J \<noteq> asValue d) (pre @ d # suf) = d # suf"
proof -
  have "\<forall>J \<in> set pre. asValue J \<noteq> asValue d"
    using distinct_asValue_append [OF assms, of _ d] by simp
  then show ?thesis by (simp add: dropWhile_append3)
qed

lemma takeWhile_mid:
  assumes "distinct (map asValue (pre @ d # suf))"
  shows "takeWhile (\<lambda>J. asValue J \<noteq> asValue d) (pre @ d # suf) = pre"
proof -
  have "\<forall>J \<in> set pre. asValue J \<noteq> asValue d"
    using distinct_asValue_append [OF assms, of _ d] by simp
  then show ?thesis by (simp add: takeWhile_tail)
qed

lemma nextOf_mid:
  assumes "distinct (map asValue (pre @ d # suf))"
  shows "nextOf (pre @ d # suf) (asValue d) = beginOf suf"
  by (simp add: nextOf_def dropWhile_mid [OF assms])

lemma insertAfter_split:
  assumes "\<forall>J \<in> set p1. asValue J \<noteq> asValue X"
  shows "insertAfter (asValue X) d (p1 @ X # p2) = p1 @ X # d # p2"
proof -
  from assms have "takeWhile (\<lambda>J. asValue J \<noteq> asValue X) (p1 @ X # p2) = p1"
    by (simp add: takeWhile_tail)
  then show ?thesis by (simp add: insertAfter_def)
qed

lemma move_step:
  assumes dist: "distinct (map asValue (p1 @ X # p2 @ d # suf))"
  shows "(if nextOf (p1 @ X # p2 @ d # suf) (asValue X) = Some (asValue d)
          then mkModule ws (p1 @ X # p2 @ d # suf)
          else moveInstruction (mkModule ws (p1 @ X # p2 @ d # suf))
                 (nextOf (p1 @ X # p2 @ d # suf) (asValue X)) d)
         = mkModule ws (p1 @ X # d # p2 @ suf)"
proof -
  have nx: "\<forall>J \<in> set p1. asValue J \<noteq> asValue X"
    using distinct_asValue_append [OF dist, of _ X] by simp
  then have dw: "dropWhile (\<lambda>J. asValue J \<noteq> asValue X) (p1 @ X # p2 @ d # suf) = X # p2 @ d # suf"
    by (simp add: dropWhile_append3)
  show ?thesis
  proof (cases p2)
    case Nil
    with dw show ?thesis by (simp add: nextOf_def beginOf_def)
  next
    case (Cons y p2')
    have dist2: "distinct (map asValue ((p1 @ [X, y]) @ p2' @ d # suf))"
      using dist Cons by simp
    have ny: "asValue y \<noteq> asValue d"
      using distinct_asValue_append [OF dist2, of y d] by simp
    have nxt: "nextOf (p1 @ X # p2 @ d # suf) (asValue X) = Some (asValue y)"
      using dw Cons by (simp add: nextOf_def beginOf_def)
    have dist3: "distinct (map asValue ((p1 @ X # p2) @ d # suf))"
      using dist by simp
    have "\<forall>J \<in> set (p1 @ X # p2). asValue J \<noteq> asValue d"
      using distinct_asValue_append [OF dist3, of _ d] by simp
    moreover have "\<forall>J \<in> set suf. asValue J \<noteq> asValue d"
      using dist by (simp add: image_iff) metis
    ultimately
    have er: "filter (\<lambda>J. asValue J \<noteq> asValue d) (p1 @ X # p2 @ d # suf) = p1 @ X # p2 @ suf"
      by (simp add: filter_id_conv)
    have dist': "distinct (map asValue ((p1 @ [X]) @ y # p2' @ d # suf))"
      using dist Cons by simp
    have "\<forall>J \<in> set (p1 @ [X]). asValue J \<noteq> asValue y"
      using distinct_asValue_append [OF dist', of _ y] by simp
    then have tw: "takeWhile (\<lambda>J. asValue J \<noteq> asValue y) ((p1 @ [X]) @ y # p2' @ suf) = p1 @ [X]"
      and dw2: "dropWhile (\<lambda>J. asValue J \<noteq> asValue y) ((p1 @ [X]) @ y # p2' @ suf) = y # p2' @ suf"
      by (simp_all add: takeWhile_tail dropWhile_append3 del: append_assoc)
    have "insertBefore (Some (asValue y)) d (p1 @ X # p2 @ suf) = p1 @ X # d # p2 @ suf"
      using tw dw2 by (simp add: insertBefore_def Cons)
    then show ?thesis
      using ny nxt er
      by (simp add: moveInstruction_def insertInstruction_def eraseInstruction_def mkModule_def)
  qed
qed

lemma getInstrs_mkModule [simp]: "getInstrs (mkModule ws l) = l"
  by (simp add: mkModule_def)

lemma hoistLoop_other_step:
  assumes dist: "distinct (map asValue (pre @ I # suf))"
    and nd: "\<not> isa DeallocActivationInstKind I"
  shows "hoistLoop (Suc f) LU (mkModule ws (pre @ I # suf)) (Some (asValue I))
           = hoistLoop f LU (mkModule ws (pre @ I # suf)) (beginOf suf)"
  using nd by (simp add: lookup_mid [OF dist] nextOf_mid [OF dist])

lemma hoistLoop_dealloc_step:
  assumes dist: "distinct (map asValue (p1 @ X # p2 @ d # suf))"
    and dd: "isa DeallocActivationInstKind d"
    and ops: "getOperands d = opd # ops"
    and k: "getKind (getOrigin (mkModule ws (p1 @ X # p2 @ d # suf)) (fst opd)) = AllocActivationInstKind"
    and lu: "LU (getOrigin (mkModule ws (p1 @ X # p2 @ d # suf)) (fst opd)) = Some (asValue X)"
  shows "hoistLoop (Suc f) LU (mkModule ws (p1 @ X # p2 @ d # suf)) (Some (asValue d))
           = hoistLoop f LU (mkModule ws (p1 @ X # d # p2 @ suf)) (beginOf suf)"
proof -
  have dist': "distinct (map asValue ((p1 @ X # p2) @ d # suf))" using dist by simp
  have lk: "lookupInstr (mkModule ws (p1 @ X # p2 @ d # suf)) (asValue d) = Some d"
    using lookup_mid [OF dist', of ws] by simp
  have nx: "nextOf (p1 @ X # p2 @ d # suf) (asValue d) = beginOf suf"
    using nextOf_mid [OF dist'] by simp
  have "hoistLoop (Suc f) LU (mkModule ws (p1 @ X # p2 @ d # suf)) (Some (asValue d))
          = hoistLoop f LU
              (if nextOf (p1 @ X # p2 @ d # suf) (asValue X) = Some (asValue d)
               then mkModule ws (p1 @ X # p2 @ d # suf)
               else moveInstruction (mkModule ws (p1 @ X # p2 @ d # suf))
                      (nextOf (p1 @ X # p2 @ d # suf) (asValue X)) d)
              (beginOf suf)"
    using dd ops k lu by (simp add: lk nx Let_def)
  then show ?thesis by (simp only: move_step [OF dist])
qed

lemma set_insertAfter [simp]: "set (insertAfter x d pre) = insert d (set pre)"
proof -
  have "set (take n pre) \<union> set (drop n pre) = set pre" for n
    by (metis append_take_drop_id set_append)
  then show ?thesis by (auto simp: insertAfter_def Let_def)
qed

lemma length_insertAfter [simp]: "length (insertAfter x d pre) = Suc (length pre)"
  by (simp add: insertAfter_def Let_def)

lemma mset_insertAfter [simp]: "mset (insertAfter x d pre) = add_mset d (mset pre)"
proof -
  have "mset (take n pre) + mset (drop n pre) = mset pre" for n
    by (metis append_take_drop_id mset_append)
  then show ?thesis by (simp add: insertAfter_def Let_def)
qed

lemma distinct_insertAfter:
  "distinct (map asValue (insertAfter x d pre @ suf)) = distinct (map asValue (pre @ d # suf))"
proof -
  have "mset (map asValue (insertAfter x d pre @ suf)) = mset (map asValue (pre @ d # suf))"
    by simp
  then show ?thesis by (metis distinct_count_atmost_1 set_mset_mset)
qed

lemma nth_ins:
  assumes "n \<le> length pre" "k \<le> length pre"
  shows "(take n pre @ d # drop n pre) ! k
           = (if k < n then pre ! k else if k = n then d else pre ! (k - 1))"
  using assms by (auto simp: nth_append min_def nth_Cons')

lemma first_index:
  assumes "x \<in> set (map asValue pre)"
  shows "length (takeWhile (\<lambda>J. asValue J \<noteq> x) pre) < length pre
       \<and> asValue (pre ! length (takeWhile (\<lambda>J. asValue J \<noteq> x) pre)) = x"
proof -
  from assms have "takeWhile (\<lambda>J. asValue J \<noteq> x) pre \<noteq> pre"
    by (auto simp: takeWhile_eq_all_conv)
  then have l: "length (takeWhile (\<lambda>J. asValue J \<noteq> x) pre) < length pre"
    using length_takeWhile_le [of "\<lambda>J. asValue J \<noteq> x" pre]
    by (metis le_neq_implies_less takeWhile_eq_take take_all order_refl)
  from nth_length_takeWhile [OF l] show ?thesis using l by simp
qed

lemma settled_append:
  assumes s: "settled M pre" and nd: "\<not> isa DeallocActivationInstKind I"
  shows "settled M (pre @ [I])"
  unfolding settled_def
proof (intro allI impI)
  fix i assume i: "i < length (pre @ [I])" and d: "isa DeallocActivationInstKind ((pre @ [I]) ! i)"
  from d nd i have il: "i < length pre" by (cases "i = length pre") (auto simp: nth_append)
  with d have "isa DeallocActivationInstKind (pre ! i)" by (simp add: nth_append)
  with s il obtain j where j: "j < i" "target M (pre ! i) = Some (asValue (pre ! j))"
    "\<forall>k. j < k \<and> k < i \<longrightarrow> isa DeallocActivationInstKind (pre ! k)"
    unfolding settled_def by blast
  show "\<exists>j<i. target M ((pre @ [I]) ! i) = Some (asValue ((pre @ [I]) ! j))
           \<and> (\<forall>k. j < k \<and> k < i \<longrightarrow> isa DeallocActivationInstKind ((pre @ [I]) ! k))"
    using j il by (intro exI [of _ j]) (auto simp: nth_append)
qed

lemma settled_insertAfter:
  assumes s: "settled M pre" and dd: "isa DeallocActivationInstKind d"
    and tg: "target M d = Some x" and x: "x \<in> set (map asValue pre)"
  shows "settled M (insertAfter x d pre)"
proof -
  define p where "p = length (takeWhile (\<lambda>J. asValue J \<noteq> x) pre)"
  from first_index [OF x] have p: "p < length pre" and px: "asValue (pre ! p) = x"
    by (simp_all add: p_def)
  define l' where "l' = take (Suc p) pre @ d # drop (Suc p) pre"
  have l': "insertAfter x d pre = l'" by (simp add: insertAfter_def l'_def p_def)
  have nth: "l' ! k = (if k < Suc p then pre ! k else if k = Suc p then d else pre ! (k - 1))"
    if "k \<le> length pre" for k
    unfolding l'_def using p that by (intro nth_ins) auto
  have len: "length l' = Suc (length pre)" using p by (simp add: l'_def)
  have "\<exists>j<i. target M (l' ! i) = Some (asValue (l' ! j))
           \<and> (\<forall>k. j < k \<and> k < i \<longrightarrow> isa DeallocActivationInstKind (l' ! k))"
    if i: "i < length l'" and di: "isa DeallocActivationInstKind (l' ! i)" for i
  proof -
    from i len have ile: "i \<le> length pre" by simp
    consider (new) "i = Suc p" | (before) "i < Suc p" | (after) "Suc p < i" by linarith
    then show ?thesis
    proof cases
      case new
      have "target M (l' ! i) = Some (asValue (l' ! p))"
        using nth [OF ile] nth [of p] p new tg px by simp
      then show ?thesis using new by (intro exI [of _ p]) auto
    next
      case before
      with di nth [OF ile] have "isa DeallocActivationInstKind (pre ! i)" by simp
      moreover from before p have "i < length pre" by simp
      ultimately obtain j where j: "j < i" "target M (pre ! i) = Some (asValue (pre ! j))"
        "\<forall>k. j < k \<and> k < i \<longrightarrow> isa DeallocActivationInstKind (pre ! k)"
        using s unfolding settled_def by blast
      have "target M (l' ! i) = Some (asValue (l' ! j))"
        using nth [OF ile] nth [of j] j(1,2) before ile by simp
      moreover have "isa DeallocActivationInstKind (l' ! k)" if "j < k \<and> k < i" for k
        using nth [of k] that j(3) before ile by simp
      ultimately show ?thesis using j(1) by (intro exI [of _ j]) auto
    next
      case after
      then have i1: "i - 1 < length pre" using ile by simp
      from after di nth [OF ile] have "isa DeallocActivationInstKind (pre ! (i - 1))" by simp
      with i1 obtain j where j: "j < i - 1" "target M (pre ! (i - 1)) = Some (asValue (pre ! j))"
        "\<forall>k. j < k \<and> k < i - 1 \<longrightarrow> isa DeallocActivationInstKind (pre ! k)"
        using s unfolding settled_def by blast
      define j' where "j' = (if j < Suc p then j else Suc j)"
      have jl: "j' \<le> length pre" using j(1) i1 by (simp add: j'_def)
      have lj: "l' ! j' = pre ! j" using nth [OF jl] by (auto simp: j'_def)
      have ji: "j' < i" using j(1) after by (auto simp: j'_def)
      have "target M (l' ! i) = Some (asValue (l' ! j'))"
        using nth [OF ile] after j(2) lj by simp
      moreover have "isa DeallocActivationInstKind (l' ! k)" if k: "j' < k \<and> k < i" for k
      proof -
        from k ile have kl: "k \<le> length pre" by simp
        consider "k = Suc p" | "k < Suc p" | "Suc p < k" by linarith
        then show ?thesis
        proof cases
          case 1
          then show ?thesis using nth [OF kl] dd by simp
        next
          case 2
          with k have "j < k" by (auto simp: j'_def split: if_splits)
          moreover from 2 after have "k < i - 1" by simp
          ultimately show ?thesis using nth [OF kl] 2 j(3) by simp
        next
          case 3
          with k have "j < k - 1" unfolding j'_def by (cases "j < Suc p") auto
          moreover from k 3 have "k - 1 < i - 1" by linarith
          ultimately show ?thesis using nth [OF kl] 3 j(3) by simp
        qed
      qed
      ultimately show ?thesis using ji by (intro exI [of _ j']) auto
    qed
  qed
  then show ?thesis unfolding l' settled_def by blast
qed

lemma filter_insertAfter:
  assumes "isa DeallocActivationInstKind d"
  shows "filter (\<lambda>I. \<not> isa DeallocActivationInstKind I) (insertAfter x d pre)
           = filter (\<lambda>I. \<not> isa DeallocActivationInstKind I) pre"
proof -
  have "filter P (take n pre) @ filter P (drop n pre) = filter P pre" for P n
    by (metis append_take_drop_id filter_append)
  with assms show ?thesis by (simp add: insertAfter_def Let_def)
qed

lemma recordOperands:
  "foldl (\<lambda>lu opd. case getAllocationOrigin M (fst opd) of
                       None \<Rightarrow> lu
                     | Some alloc \<Rightarrow> lu(alloc \<mapsto> v)) lu ops a
     = (if list_ex (\<lambda>opd. getAllocationOrigin M (fst opd) = Some a) ops then Some v else lu a)"
  by (induction ops arbitrary: lu) (auto split: option.splits)

lemma recordLastUser_at:
  "recordLastUser M lu I a = (if usesAllocation M a I then Some (asValue I) else lu a)"
  by (auto simp: recordLastUser_def usesAllocation_def recordOperands)

lemma foldl_recordLastUser:
  "foldl (recordLastUser M) lu l a
     = (case find (usesAllocation M a) (rev l) of None \<Rightarrow> lu a | Some I \<Rightarrow> Some (asValue I))"
proof (induction l rule: rev_induct)
  case Nil
  then show ?case by simp
next
  case (snoc I l)
  then show ?case by (simp add: recordLastUser_at)
qed

lemma lastUsers_last_use:
  "lastUsers M a = map_option asValue (find (usesAllocation M a) (rev (getInstrs M)))"
  by (simp add: lastUsers_def foldl_recordLastUser split: option.splits)

lemma mkModule_update: "mkModule (getWeights M) l = M\<lparr>getInstrs := l\<rparr>"
  by (cases M) (simp add: mkModule_def)

lemma mkModule_self: "mkModule (getWeights M) (getInstrs M) = M"
  by (cases M) (simp add: mkModule_def)

lemma find_Some_member: "find P xs = Some x \<Longrightarrow> P x \<and> x \<in> set xs"
  by (induction xs) (auto split: if_splits)

lemma pending_le: "pending M l \<le> length l"
  by (induction l) auto

lemma target_in_stream:
  assumes "target M d = Some x"
  shows "\<exists>X \<in> set (getInstrs M). asValue X = x \<and> \<not> isa DeallocActivationInstKind X"
proof -
  from assms obtain a where "lastUsers M a = Some x"
    by (auto simp: target_def split: list.splits)
  then obtain X where f: "find (usesAllocation M a) (rev (getInstrs M)) = Some X" and x: "x = asValue X"
    by (auto simp: lastUsers_last_use)
  from find_Some_member [OF f] have "usesAllocation M a X" "X \<in> set (getInstrs M)" by simp_all
  then show ?thesis using x by (auto simp: usesAllocation_def)
qed

lemma pending_insert:
  assumes tg: "target M d = Some (asValue X)"
    and nt: "\<forall>e \<in> set r1. target M e \<noteq> Some (asValue d)"
    and ndX: "\<not> isa DeallocActivationInstKind X"
    and nx: "asValue X \<notin> set (map asValue r2)"
  shows "pending M (r1 @ X # d # r2) = pending M (r1 @ X # r2)"
  using nt
proof (induction r1)
  case Nil
  then show ?case using tg ndX nx by auto
next
  case (Cons e r1)
  then have ih: "pending M (r1 @ X # d # r2) = pending M (r1 @ X # r2)" by simp
  from Cons.prems have ne: "target M e \<noteq> Some (asValue d)" by simp
  have "(\<exists>x \<in> set (map asValue (r1 @ X # d # r2)). target M e = Some x)
          = (\<exists>x \<in> set (map asValue (r1 @ X # r2)). target M e = Some x)"
    using ne by auto
  then show ?case using ih by simp
qed

lemma move_forward:
  assumes dist: "distinct (map asValue (pre @ d # r1 @ X # r2))"
  shows "nextOf (pre @ d # r1 @ X # r2) (asValue X) \<noteq> Some (asValue d)
       \<and> moveInstruction (mkModule ws (pre @ d # r1 @ X # r2))
             (nextOf (pre @ d # r1 @ X # r2) (asValue X)) d
           = mkModule ws (pre @ r1 @ X # d # r2)"
proof -
  have dist1: "distinct (map asValue ((pre @ d # r1) @ X # r2))" using dist by simp
  have nx: "nextOf (pre @ d # r1 @ X # r2) (asValue X) = beginOf r2"
    using nextOf_mid [OF dist1] by simp
  have "\<forall>J \<in> set pre. asValue J \<noteq> asValue d"
    using distinct_asValue_append [OF dist, of _ d] by simp
  moreover have dist3: "distinct (map asValue ((pre @ [d]) @ r1 @ X # r2))" using dist by simp
  have after: "\<forall>J \<in> set (r1 @ X # r2). asValue J \<noteq> asValue d"
    using distinct_asValue_append [OF dist3, of d] by force
  note after
  ultimately
  have er: "filter (\<lambda>J. asValue J \<noteq> asValue d) (pre @ d # r1 @ X # r2) = pre @ r1 @ X # r2"
    by (simp add: filter_id_conv)
  show ?thesis
  proof (cases r2)
    case Nil
    then show ?thesis
      using nx er
      by (simp add: beginOf_def moveInstruction_def insertInstruction_def eraseInstruction_def
            insertBefore_def mkModule_def)
  next
    case (Cons y r2')
    have ny: "asValue y \<noteq> asValue d"
      using after Cons by simp
    have dist2: "distinct (map asValue ((pre @ r1 @ [X]) @ y # r2'))"
      using dist Cons by simp
    have "\<forall>J \<in> set (pre @ r1 @ [X]). asValue J \<noteq> asValue y"
      using distinct_asValue_append [OF dist2, of _ y] by simp
    then have tw: "takeWhile (\<lambda>J. asValue J \<noteq> asValue y) ((pre @ r1 @ [X]) @ y # r2') = pre @ r1 @ [X]"
      and dw: "dropWhile (\<lambda>J. asValue J \<noteq> asValue y) ((pre @ r1 @ [X]) @ y # r2') = y # r2'"
      by (simp_all add: takeWhile_tail dropWhile_append3 del: append_assoc)
    have "insertBefore (Some (asValue y)) d (pre @ r1 @ X # r2) = pre @ r1 @ X # d # r2"
      using tw dw by (simp add: insertBefore_def Cons)
    then show ?thesis
      using ny nx er Cons
      by (simp add: beginOf_def moveInstruction_def insertInstruction_def eraseInstruction_def
            mkModule_def)
  qed
qed

lemma hoistLoop_forward_step:
  assumes dist: "distinct (map asValue (pre @ d # r1 @ X # r2))"
    and dd: "isa DeallocActivationInstKind d"
    and ops: "getOperands d = opd # ops"
    and k: "getKind (getOrigin (mkModule ws (pre @ d # r1 @ X # r2)) (fst opd)) = AllocActivationInstKind"
    and lu: "LU (getOrigin (mkModule ws (pre @ d # r1 @ X # r2)) (fst opd)) = Some (asValue X)"
  shows "hoistLoop (Suc f) LU (mkModule ws (pre @ d # r1 @ X # r2)) (Some (asValue d))
           = hoistLoop f LU (mkModule ws (pre @ r1 @ X # d # r2)) (beginOf (r1 @ X # d # r2))"
proof -
  have lk: "lookupInstr (mkModule ws (pre @ d # r1 @ X # r2)) (asValue d) = Some d"
    by (rule lookup_mid [OF dist])
  have nx: "nextOf (pre @ d # r1 @ X # r2) (asValue d) = beginOf (r1 @ X # r2)"
    by (rule nextOf_mid [OF dist])
  have b: "beginOf (r1 @ X # r2) = beginOf (r1 @ X # d # r2)"
    by (cases r1) (simp_all add: beginOf_def)
  note mv = move_forward [OF dist, of ws]
  have "hoistLoop (Suc f) LU (mkModule ws (pre @ d # r1 @ X # r2)) (Some (asValue d))
          = hoistLoop f LU
              (moveInstruction (mkModule ws (pre @ d # r1 @ X # r2))
                      (nextOf (pre @ d # r1 @ X # r2) (asValue X)) d)
              (beginOf (r1 @ X # r2))"
    using dd ops k lu mv by (simp add: lk nx Let_def)
  then show ?thesis using mv by (simp only: b)
qed

lemma hoistLoop_settles:
  assumes "distinct (map asValue (pre @ suf))"
    and "set (pre @ suf) = set (getInstrs M)"
    and "length (pre @ suf) = length (getInstrs M)"
    and "distinct (map asValue (getInstrs M))"
    and "\<forall>d \<in> set (getInstrs M). hoistable M d"
    and "settled M pre"
    and "length suf + pending M suf \<le> fuel"
  shows "\<exists>l'. hoistLoop fuel (lastUsers M) (mkModule ws (pre @ suf)) (beginOf suf)
                 = Inr (mkModule ws l')
            \<and> settled M l' \<and> mset l' = mset (pre @ suf)
            \<and> filter (\<lambda>I. \<not> isa DeallocActivationInstKind I) l'
                = filter (\<lambda>I. \<not> isa DeallocActivationInstKind I) (pre @ suf)"
  using assms
proof (induction fuel arbitrary: pre suf)
  case 0
  then have "suf = []" by simp
  with 0 show ?case by (auto simp: beginOf_def intro!: exI [of _ pre])
next
  case (Suc f)
  show ?case
  proof (cases suf)
    case Nil
    with Suc.prems show ?thesis by (auto simp: beginOf_def intro!: exI [of _ pre])
  next
    case (Cons I rest)
    note suf = Cons
    have b: "beginOf (I # rest) = Some (asValue I)" by (simp add: beginOf_def)
    have dist: "distinct (map asValue (pre @ I # rest))" using Suc.prems(1) suf by simp
    have o: "getOrigin (mkModule ws (pre @ I # rest)) v = getOrigin M v" for v
    proof (rule getOrigin_same_set)
      show "distinct (map asValue (getInstrs (mkModule ws (pre @ I # rest))))"
        using dist by simp
      show "distinct (map asValue (getInstrs M))" by (rule Suc.prems(4))
      show "set (getInstrs (mkModule ws (pre @ I # rest))) = set (getInstrs M)"
        using Suc.prems(2) suf by simp
      show "length (getInstrs (mkModule ws (pre @ I # rest))) = length (getInstrs M)"
        using Suc.prems(3) suf by simp
    qed
    show ?thesis
    proof (cases "isa DeallocActivationInstKind I")
      case False
      have m: "length rest + pending M rest \<le> f" using Suc.prems(7) suf False by simp
      have "\<exists>l'. hoistLoop f (lastUsers M) (mkModule ws ((pre @ [I]) @ rest)) (beginOf rest)
                 = Inr (mkModule ws l')
            \<and> settled M l' \<and> mset l' = mset ((pre @ [I]) @ rest)
            \<and> filter (\<lambda>I. \<not> isa DeallocActivationInstKind I) l'
                = filter (\<lambda>I. \<not> isa DeallocActivationInstKind I) ((pre @ [I]) @ rest)"
      proof (rule Suc.IH)
        show "distinct (map asValue ((pre @ [I]) @ rest))" using dist by simp
        show "set ((pre @ [I]) @ rest) = set (getInstrs M)" using Suc.prems(2) suf by simp
        show "length ((pre @ [I]) @ rest) = length (getInstrs M)" using Suc.prems(3) suf by simp
        show "distinct (map asValue (getInstrs M))" by (rule Suc.prems(4))
        show "\<forall>d \<in> set (getInstrs M). hoistable M d" by (rule Suc.prems(5))
        show "settled M (pre @ [I])" by (rule settled_append [OF Suc.prems(6) False])
        show "length rest + pending M rest \<le> f" by (rule m)
      qed
      then obtain l' where ih: "hoistLoop f (lastUsers M) (mkModule ws (pre @ I # rest)) (beginOf rest)
                 = Inr (mkModule ws l')"
        and p: "settled M l'" "mset l' = mset (pre @ I # rest)"
          "filter (\<lambda>I. \<not> isa DeallocActivationInstKind I) l'
                = filter (\<lambda>I. \<not> isa DeallocActivationInstKind I) (pre @ I # rest)"
        by auto
      have "hoistLoop (Suc f) (lastUsers M) (mkModule ws (pre @ suf)) (beginOf suf)
              = hoistLoop (Suc f) (lastUsers M) (mkModule ws (pre @ I # rest)) (Some (asValue I))"
        by (simp only: suf b)
      also have "\<dots> = hoistLoop f (lastUsers M) (mkModule ws (pre @ I # rest)) (beginOf rest)"
        by (rule hoistLoop_other_step [OF dist False])
      also have "\<dots> = Inr (mkModule ws l')" by (rule ih)
      finally show ?thesis using p suf by blast
    next
      case True
      have "I \<in> set (getInstrs M)" using Suc.prems(2) suf by auto
      with Suc.prems(5) have "hoistable M I" by blast
      with True obtain opd ops x where ops: "getOperands I = opd # ops"
        and k: "getKind (getOrigin M (fst opd)) = AllocActivationInstKind"
        and lu: "lastUsers M (getOrigin M (fst opd)) = Some x"
        by (auto simp: hoistable_def split: list.splits)
      have tg: "target M I = Some x" by (simp add: target_def ops lu)
      from target_in_stream [OF tg] obtain X where XM: "X \<in> set (getInstrs M)"
        and xX: "x = asValue X" and ndX: "\<not> isa DeallocActivationInstKind X" by auto
      from ndX True have "X \<noteq> I" by auto
      with XM Suc.prems(2) suf have "X \<in> set pre \<or> X \<in> set rest" by auto
      then show ?thesis
      proof
        assume "X \<in> set pre"
        then obtain p1 p2 where pre: "pre = p1 @ X # p2" by (auto dest: split_list)
        have x: "x \<in> set (map asValue pre)" using pre xX by simp
        have dist': "distinct (map asValue (p1 @ X # p2 @ I # rest))" using dist pre by simp
        have step: "hoistLoop (Suc f) (lastUsers M) (mkModule ws (p1 @ X # p2 @ I # rest)) (Some (asValue I))
           = hoistLoop f (lastUsers M) (mkModule ws (p1 @ X # I # p2 @ rest)) (beginOf rest)"
          by (rule hoistLoop_dealloc_step [OF dist' True ops])
             (use o [unfolded pre] in \<open>simp_all add: k lu xX\<close>)
        have n1: "\<forall>J \<in> set p1. asValue J \<noteq> asValue X"
          using distinct_asValue_append [OF dist', of _ X] by simp
        have ia: "insertAfter x I pre = p1 @ X # I # p2"
          unfolding pre xX by (rule insertAfter_split [OF n1])
        have m: "length rest + pending M rest \<le> f" using Suc.prems(7) suf by simp
        have "\<exists>l'. hoistLoop f (lastUsers M) (mkModule ws (insertAfter x I pre @ rest)) (beginOf rest)
                 = Inr (mkModule ws l')
            \<and> settled M l' \<and> mset l' = mset (insertAfter x I pre @ rest)
            \<and> filter (\<lambda>I. \<not> isa DeallocActivationInstKind I) l'
                = filter (\<lambda>I. \<not> isa DeallocActivationInstKind I) (insertAfter x I pre @ rest)"
        proof (rule Suc.IH)
          show "distinct (map asValue (insertAfter x I pre @ rest))"
            using dist by (simp only: distinct_insertAfter)
          show "set (insertAfter x I pre @ rest) = set (getInstrs M)" using Suc.prems(2) suf by simp
          show "length (insertAfter x I pre @ rest) = length (getInstrs M)"
            using Suc.prems(3) suf by simp
          show "distinct (map asValue (getInstrs M))" by (rule Suc.prems(4))
          show "\<forall>d \<in> set (getInstrs M). hoistable M d" by (rule Suc.prems(5))
          show "settled M (insertAfter x I pre)"
            by (rule settled_insertAfter [OF Suc.prems(6) True tg x])
          show "length rest + pending M rest \<le> f" by (rule m)
        qed
        then obtain l' where ih: "hoistLoop f (lastUsers M) (mkModule ws (insertAfter x I pre @ rest)) (beginOf rest)
                 = Inr (mkModule ws l')"
          and p: "settled M l'" "mset l' = mset (pre @ I # rest)"
            "filter (\<lambda>I. \<not> isa DeallocActivationInstKind I) l'
                = filter (\<lambda>I. \<not> isa DeallocActivationInstKind I) (pre @ I # rest)"
          using True by (auto simp: filter_insertAfter)
        have e1: "pre @ I # rest = p1 @ X # p2 @ I # rest" by (simp add: pre)
        have e2: "insertAfter x I pre @ rest = p1 @ X # I # p2 @ rest" by (simp add: ia)
        have "hoistLoop (Suc f) (lastUsers M) (mkModule ws (pre @ suf)) (beginOf suf)
            = hoistLoop (Suc f) (lastUsers M) (mkModule ws (p1 @ X # p2 @ I # rest)) (Some (asValue I))"
          by (simp only: suf b e1)
        also have "\<dots> = hoistLoop f (lastUsers M) (mkModule ws (p1 @ X # I # p2 @ rest)) (beginOf rest)"
          by (rule step)
        also have "\<dots> = hoistLoop f (lastUsers M) (mkModule ws (insertAfter x I pre @ rest)) (beginOf rest)"
          by (simp only: e2)
        also have "\<dots> = Inr (mkModule ws l')" by (rule ih)
        finally show ?thesis using p suf by blast
      next
        assume "X \<in> set rest"
        then obtain r1 r2 where rest: "rest = r1 @ X # r2" by (auto dest: split_list)
        have dist': "distinct (map asValue (pre @ I # r1 @ X # r2))" using dist rest by simp
        have step: "hoistLoop (Suc f) (lastUsers M) (mkModule ws (pre @ I # r1 @ X # r2)) (Some (asValue I))
           = hoistLoop f (lastUsers M) (mkModule ws (pre @ r1 @ X # I # r2)) (beginOf (r1 @ X # I # r2))"
          by (rule hoistLoop_forward_step [OF dist' True ops])
             (use o [unfolded rest] in \<open>simp_all add: k lu xX\<close>)
        have IM: "I \<in> set (getInstrs M)" by fact
        have nt: "target M e \<noteq> Some (asValue I)" for e
        proof
          assume "target M e = Some (asValue I)"
          from target_in_stream [OF this] obtain Y where Y: "Y \<in> set (getInstrs M)"
            "asValue Y = asValue I" "\<not> isa DeallocActivationInstKind Y" by auto
          from Suc.prems(4) Y(1,2) IM have "Y = I"
            by (meson distinct_map inj_onD)
          with Y(3) True show False by simp
        qed
        have nx: "asValue X \<notin> set (map asValue r2)"
          using dist' by (auto simp: image_iff)
        have pe: "pending M (r1 @ X # I # r2) = pending M (r1 @ X # r2)"
          by (rule pending_insert) (use tg xX nt ndX nx in auto)
        have "pending M (I # rest) = Suc (pending M rest)"
          using True tg xX rest by simp
        with Suc.prems(7) suf have "Suc (length rest) + Suc (pending M rest) \<le> Suc f" by simp
        then have m: "length (r1 @ X # I # r2) + pending M (r1 @ X # I # r2) \<le> f"
          using pe rest by simp
        have "\<exists>l'. hoistLoop f (lastUsers M) (mkModule ws (pre @ r1 @ X # I # r2)) (beginOf (r1 @ X # I # r2))
                 = Inr (mkModule ws l')
            \<and> settled M l' \<and> mset l' = mset (pre @ r1 @ X # I # r2)
            \<and> filter (\<lambda>I. \<not> isa DeallocActivationInstKind I) l'
                = filter (\<lambda>I. \<not> isa DeallocActivationInstKind I) (pre @ r1 @ X # I # r2)"
        proof (rule Suc.IH)
          show "distinct (map asValue (pre @ r1 @ X # I # r2))" using dist' by auto
          show "set (pre @ r1 @ X # I # r2) = set (getInstrs M)"
            using Suc.prems(2) suf rest by auto
          show "length (pre @ r1 @ X # I # r2) = length (getInstrs M)"
            using Suc.prems(3) suf rest by simp
          show "distinct (map asValue (getInstrs M))" by (rule Suc.prems(4))
          show "\<forall>d \<in> set (getInstrs M). hoistable M d" by (rule Suc.prems(5))
          show "settled M pre" by (rule Suc.prems(6))
          show "length (r1 @ X # I # r2) + pending M (r1 @ X # I # r2) \<le> f" by (rule m)
        qed
        then obtain l' where ih: "hoistLoop f (lastUsers M) (mkModule ws (pre @ r1 @ X # I # r2)) (beginOf (r1 @ X # I # r2))
                 = Inr (mkModule ws l')"
          and p: "settled M l'" "mset l' = mset (pre @ I # rest)"
            "filter (\<lambda>I. \<not> isa DeallocActivationInstKind I) l'
                = filter (\<lambda>I. \<not> isa DeallocActivationInstKind I) (pre @ I # rest)"
          using True rest by auto
        have e1: "pre @ I # rest = pre @ I # r1 @ X # r2" by (simp add: rest)
        have "hoistLoop (Suc f) (lastUsers M) (mkModule ws (pre @ suf)) (beginOf suf)
            = hoistLoop (Suc f) (lastUsers M) (mkModule ws (pre @ I # r1 @ X # r2)) (Some (asValue I))"
          by (simp only: suf b e1)
        also have "\<dots> = hoistLoop f (lastUsers M) (mkModule ws (pre @ r1 @ X # I # r2)) (beginOf (r1 @ X # I # r2))"
          by (rule step)
        also have "\<dots> = Inr (mkModule ws l')" by (rule ih)
        finally show ?thesis using p suf by blast
      qed
    qed
  qed
qed

text \<open>
  C5, as the code has it. Let the instructions of the stream be distinct and let every
  dealloc be hoistable: it gets past the checks of the loop (it has an operand whose
  origin is an allocation for which the first loop recorded a last user), wherever it
  stands in the stream. Then \<open>hoistDealloc\<close> returns, and it returns a stream \<open>l'\<close>
  that is a permutation of the input in which the instructions other than deallocs keep
  their order, and every dealloc follows the last user of its allocation with nothing
  but deallocs between the two. The last user of an allocation is the last instruction
  of the stream, other than a dealloc, that is the allocation itself or has an operand
  whose allocation origin it is (a use through a view counts). An iteration of the loop
  that finds the dealloc immediately after the last user goes on with the module as it
  is: the dealloc is not moved.
\<close>

theorem hoistDealloc_after_last_use:
  assumes dist: "distinct (map asValue (getInstrs M))"
    and wf: "\<forall>d \<in> set (getInstrs M). hoistable M d"
  shows "(\<exists>l'. hoistDealloc M = Inr (M\<lparr>getInstrs := l'\<rparr>)
            \<and> mset l' = mset (getInstrs M)
            \<and> filter (\<lambda>I. \<not> isa DeallocActivationInstKind I) l'
                = filter (\<lambda>I. \<not> isa DeallocActivationInstKind I) (getInstrs M)
            \<and> (\<forall>i < length l'. isa DeallocActivationInstKind (l' ! i) \<longrightarrow>
                  (\<exists>j < i. target M (l' ! i) = Some (asValue (l' ! j))
                     \<and> (\<forall>k. j < k \<and> k < i \<longrightarrow> isa DeallocActivationInstKind (l' ! k)))))
       \<and> (\<forall>d opd ops. getOperands d = opd # ops \<longrightarrow>
             target M d = map_option asValue
                            (find (usesAllocation M (getOrigin M (fst opd))) (rev (getInstrs M))))
       \<and> (\<forall>fuel LU M' cur da opd ops wh.
             lookupInstr M' cur = Some da \<and> isa DeallocActivationInstKind da
             \<and> getOperands da = opd # ops
             \<and> getKind (getOrigin M' (fst opd)) = AllocActivationInstKind
             \<and> LU (getOrigin M' (fst opd)) = Some wh
             \<and> nextOf (getInstrs M') wh = Some cur \<longrightarrow>
             hoistLoop (Suc fuel) LU M' (Some cur) = hoistLoop fuel LU M' (nextOf (getInstrs M') cur))"
proof -
  have s0: "settled M []" by (simp add: settled_def)
  have fuel: "length (getInstrs M) + pending M (getInstrs M) \<le> 2 * length (getInstrs M)"
    using pending_le [of M "getInstrs M"] by simp
  have "\<exists>l'. hoistLoop (2 * length (getInstrs M)) (lastUsers M)
                (mkModule (getWeights M) ([] @ getInstrs M)) (beginOf (getInstrs M))
              = Inr (mkModule (getWeights M) l')
            \<and> settled M l' \<and> mset l' = mset ([] @ getInstrs M)
            \<and> filter (\<lambda>I. \<not> isa DeallocActivationInstKind I) l'
                = filter (\<lambda>I. \<not> isa DeallocActivationInstKind I) ([] @ getInstrs M)"
    by (rule hoistLoop_settles) (use dist wf s0 fuel in simp_all)
  then obtain l' where r: "hoistDealloc M = Inr (M\<lparr>getInstrs := l'\<rparr>)"
    and p: "settled M l'" "mset l' = mset (getInstrs M)"
      "filter (\<lambda>I. \<not> isa DeallocActivationInstKind I) l'
         = filter (\<lambda>I. \<not> isa DeallocActivationInstKind I) (getInstrs M)"
    by (auto simp: hoistDealloc_def mkModule_self mkModule_update)
  have 1: "\<exists>l'. hoistDealloc M = Inr (M\<lparr>getInstrs := l'\<rparr>)
            \<and> mset l' = mset (getInstrs M)
            \<and> filter (\<lambda>I. \<not> isa DeallocActivationInstKind I) l'
                = filter (\<lambda>I. \<not> isa DeallocActivationInstKind I) (getInstrs M)
            \<and> (\<forall>i < length l'. isa DeallocActivationInstKind (l' ! i) \<longrightarrow>
                  (\<exists>j < i. target M (l' ! i) = Some (asValue (l' ! j))
                     \<and> (\<forall>k. j < k \<and> k < i \<longrightarrow> isa DeallocActivationInstKind (l' ! k))))"
    using r p unfolding settled_def by blast
  have 2: "\<forall>d opd ops. getOperands d = opd # ops \<longrightarrow>
             target M d = map_option asValue
                            (find (usesAllocation M (getOrigin M (fst opd))) (rev (getInstrs M)))"
    by (simp add: target_def lastUsers_last_use)
  have 3: "\<forall>fuel LU M' cur da opd ops wh.
             lookupInstr M' cur = Some da \<and> isa DeallocActivationInstKind da
             \<and> getOperands da = opd # ops
             \<and> getKind (getOrigin M' (fst opd)) = AllocActivationInstKind
             \<and> LU (getOrigin M' (fst opd)) = Some wh
             \<and> nextOf (getInstrs M') wh = Some cur \<longrightarrow>
             hoistLoop (Suc fuel) LU M' (Some cur) = hoistLoop fuel LU M' (nextOf (getInstrs M') cur)"
    by (simp add: Let_def)
  from 1 2 3 show ?thesis by blast
qed

lemma earlyDealloc_hoistable:
  "distinct (map asValue (getInstrs earlyDealloc))
   \<and> list_all (hoistable earlyDealloc) (getInstrs earlyDealloc)
   \<and> target earlyDealloc deallocA = Some (asValue opWAB)
   \<and> hoistDealloc earlyDealloc
       = Inr \<lparr>getInstrs = [allocOf bufA, allocOf bufB, splatA, splatB, opWAB, deallocB, deallocA],
              getWeights = [weightW]\<rparr>"
  by code_simp

theorem hoistDealloc_after_last_use_witness:
  "distinct (map asValue (getInstrs earlyDealloc))
   \<and> list_all (hoistable earlyDealloc) (getInstrs earlyDealloc)
   \<and> getInstrs earlyDealloc = [allocOf bufA, allocOf bufB, splatA, deallocA, splatB, opWAB, deallocB]
   \<and> target earlyDealloc deallocA = Some (asValue opWAB)
   \<and> hoistDealloc earlyDealloc
       = Inr \<lparr>getInstrs = [allocOf bufA, allocOf bufB, splatA, splatB, opWAB, deallocB, deallocA],
              getWeights = [weightW]\<rparr>
   \<and> (\<exists>l'. hoistDealloc earlyDealloc = Inr (earlyDealloc\<lparr>getInstrs := l'\<rparr>)
          \<and> mset l' = mset (getInstrs earlyDealloc))"
proof -
  have d: "distinct (map asValue (getInstrs earlyDealloc))"
    using earlyDealloc_hoistable by (rule conjunct1)
  have w: "\<forall>d \<in> set (getInstrs earlyDealloc). hoistable earlyDealloc d"
    using earlyDealloc_hoistable by (simp add: list_all_iff)
  from hoistDealloc_after_last_use [OF d w]
  have "\<exists>l'. hoistDealloc earlyDealloc = Inr (earlyDealloc\<lparr>getInstrs := l'\<rparr>)
          \<and> mset l' = mset (getInstrs earlyDealloc)"
    by blast
  moreover have "getInstrs earlyDealloc
      = [allocOf bufA, allocOf bufB, splatA, deallocA, splatB, opWAB, deallocB]"
    by (simp add: earlyDealloc_def)
  ultimately show ?thesis using earlyDealloc_hoistable by blast
qed

end
